theory Spec2Isabelle
  imports Complex_Main
begin

section \<open>Text: characters and the regular expressions of \<open>extractKeywords\<close>\<close>

text \<open>
  A JavaScript string is modelled as a \<^typ>\<open>string\<close>: a list of code units in the range
  0..255 (Latin-1).  The three character classes the source uses are the ASCII ones of
  ECMAScript: \<open>\w\<close> is \<open>[A-Za-z0-9_]\<close>, \<open>\d\<close> is \<open>[0-9]\<close>, and \<open>\s\<close> is white space,
  which below code 256 is tab, line feed, vertical tab, form feed, carriage return,
  space and no-break space.
\<close>

definition is_word_char :: "char \<Rightarrow> bool" where
  "is_word_char c =
     (let n = (of_char c :: nat)
      in (48 \<le> n \<and> n \<le> 57) \<or> (65 \<le> n \<and> n \<le> 90) \<or> n = 95 \<or> (97 \<le> n \<and> n \<le> 122))"

definition is_space_char :: "char \<Rightarrow> bool" where
  "is_space_char c =
     (let n = (of_char c :: nat) in (9 \<le> n \<and> n \<le> 13) \<or> n = 32 \<or> n = 160)"

definition is_digit_char :: "char \<Rightarrow> bool" where
  "is_digit_char c = (let n = (of_char c :: nat) in 48 \<le> n \<and> n \<le> 57)"

definition is_upper_char :: "char \<Rightarrow> bool" where
  \<comment> \<open>the code units below 256 that \<open>toLowerCase\<close> changes: A-Z and the Latin-1 capitals\<close>
  "is_upper_char c =
     (let n = (of_char c :: nat)
      in (65 \<le> n \<and> n \<le> 90) \<or> (192 \<le> n \<and> n \<le> 222 \<and> n \<noteq> 215))"

definition lower_char :: "char \<Rightarrow> char" where
  "lower_char c = (if is_upper_char c then char_of ((of_char c :: nat) + 32) else c)"

definition toLowerCase :: "string \<Rightarrow> string" where
  "toLowerCase s = map lower_char s"

definition replace_non_word :: "string \<Rightarrow> string" where
  \<comment> \<open>\<open>.replace(/[^\w\s]/g, ' ')\<close>\<close>
  "replace_non_word s =
     map (\<lambda>c. if \<not> is_word_char c \<and> \<not> is_space_char c then CHR '' '' else c) s"

text \<open>
  \<open>.split(/\s+/)\<close>: every maximal run of white space is one separator.  A separator at
  the very start or end leaves an empty first or last piece, and the empty string splits
  into one empty piece, as in JavaScript.
\<close>

function split_from :: "string \<Rightarrow> string \<Rightarrow> string list" where
  "split_from cur [] = [rev cur]"
| "split_from cur (c # cs) =
     (if is_space_char c then rev cur # split_from [] (dropWhile is_space_char cs)
      else split_from (c # cur) cs)"
  by pat_completeness auto
termination
  by (relation "measure (\<lambda>(cur, cs). length cs)")
     (auto simp: length_dropWhile_le less_Suc_eq_le)

definition split_ws :: "string \<Rightarrow> string list" where
  "split_ws s = split_from [] s"

definition is_pure_number :: "string \<Rightarrow> bool" where
  \<comment> \<open>\<open>/^\d+$/.test(word)\<close>\<close>
  "is_pure_number w = (w \<noteq> [] \<and> list_all is_digit_char w)"

section \<open>JavaScript values and plain objects\<close>

text \<open>
  The frequency maps are plain objects created by \<open>{}\<close>, so a property read that finds
  no own property falls through to \<open>Object.prototype\<close>.  The values a read can give are
  numbers (the counts are integers), strings, \<open>undefined\<close>, \<open>NaN\<close>, a built-in
  function of the prototype, and the prototype object itself (through \<open>__proto__\<close>).
\<close>

datatype jsval =
    Undefined
  | NaN
  | Num int
  | Str string
  | NativeFunction string
  | ObjectPrototype

type_synonym 'v obj = "(string \<times> 'v) list"
  \<comment> \<open>own properties, in the order they were created\<close>

fun show_nat :: "nat \<Rightarrow> string" where
  "show_nat n =
     (if n < 10 then [char_of (48 + n)]
      else show_nat (n div 10) @ [char_of (48 + n mod 10)])"

declare show_nat.simps [simp del]

definition show_int :: "int \<Rightarrow> string" where
  "show_int i = (if i < 0 then CHR ''-'' # show_nat (nat (- i)) else show_nat (nat i))"

fun to_primitive :: "jsval \<Rightarrow> jsval" where
  "to_primitive (NativeFunction name) = Str (''function '' @ name @ ''() { [native code] }'')"
| "to_primitive ObjectPrototype = Str ''[object Object]''"
| "to_primitive v = v"

definition to_string :: "jsval \<Rightarrow> string" where
  "to_string v =
     (case to_primitive v of
        Undefined \<Rightarrow> ''undefined''
      | NaN \<Rightarrow> ''NaN''
      | Num n \<Rightarrow> show_int n
      | Str s \<Rightarrow> s
      | _ \<Rightarrow> [])"

fun is_string :: "jsval \<Rightarrow> bool" where
  "is_string (Str s) = True"
| "is_string v = False"

fun truthy :: "jsval \<Rightarrow> bool" where
  "truthy Undefined = False"
| "truthy NaN = False"
| "truthy (Num n) = (n \<noteq> 0)"
| "truthy (Str s) = (s \<noteq> [])"
| "truthy (NativeFunction name) = True"
| "truthy ObjectPrototype = True"

definition js_or :: "jsval \<Rightarrow> jsval \<Rightarrow> jsval" where
  \<comment> \<open>\<open>a || b\<close>\<close>
  "js_or a b = (if truthy a then a else b)"

definition js_add :: "jsval \<Rightarrow> jsval \<Rightarrow> jsval" where
  \<comment> \<open>\<open>a + b\<close>: string concatenation as soon as one operand is a string after
      conversion to a primitive, numeric addition otherwise\<close>
  "js_add a b =
     (let pa = to_primitive a; pb = to_primitive b
      in if is_string pa \<or> is_string pb then Str (to_string pa @ to_string pb)
         else (case (pa, pb) of (Num x, Num y) \<Rightarrow> Num (x + y) | _ \<Rightarrow> NaN))"

definition object_prototype_functions :: "string list" where
  "object_prototype_functions =
     [''__defineGetter__'', ''__defineSetter__'', ''hasOwnProperty'', ''__lookupGetter__'',
      ''__lookupSetter__'', ''isPrototypeOf'', ''propertyIsEnumerable'', ''toString'',
      ''valueOf'', ''toLocaleString'']"

definition prototype_get :: "string \<Rightarrow> jsval" where
  \<comment> \<open>a read of \<open>Object.prototype[k]\<close>\<close>
  "prototype_get k =
     (if k = ''__proto__'' then ObjectPrototype
      else if k = ''constructor'' then NativeFunction ''Object''
      else if k \<in> set object_prototype_functions then NativeFunction k
      else Undefined)"

definition obj_get :: "jsval obj \<Rightarrow> string \<Rightarrow> jsval" where
  \<comment> \<open>\<open>o[k]\<close>\<close>
  "obj_get o' k = (case map_of o' k of Some v \<Rightarrow> v | None \<Rightarrow> prototype_get k)"

fun obj_put :: "'v obj \<Rightarrow> string \<Rightarrow> 'v \<Rightarrow> 'v obj" where
  \<comment> \<open>an own property is overwritten in place, a new one is added last\<close>
  "obj_put [] k v = [(k, v)]"
| "obj_put ((k', v') # ps) k v =
     (if k' = k then (k, v) # ps else (k', v') # obj_put ps k v)"

definition obj_set :: "jsval obj \<Rightarrow> string \<Rightarrow> jsval \<Rightarrow> jsval obj" where
  \<comment> \<open>\<open>o[k] = v\<close> for a primitive \<open>v\<close> (every value this program stores is the result of
      \<open>+\<close>, hence primitive): the inherited setter of \<open>__proto__\<close> ignores it\<close>
  "obj_set o' k v = (if k = ''__proto__'' then o' else obj_put o' k v)"

text \<open>
  \<open>Object.entries\<close> lists the own properties whose name is an array index (a canonical
  decimal numeral below \<open>2^32 - 1\<close>) first, in ascending numeric order, and the others
  after them in creation order.
\<close>

definition digits_val :: "string \<Rightarrow> nat" where
  "digits_val s = foldl (\<lambda>n c. 10 * n + (of_char c - 48)) 0 s"

definition is_array_index :: "string \<Rightarrow> bool" where
  "is_array_index s =
     (s \<noteq> [] \<and> list_all is_digit_char s \<and> (s = ''0'' \<or> hd s \<noteq> CHR ''0'')
      \<and> digits_val s < 4294967295)"

definition obj_entries :: "'v obj \<Rightarrow> (string \<times> 'v) list" where
  "obj_entries o' =
     sort_key (\<lambda>(k, v). digits_val k) (filter (\<lambda>(k, v). is_array_index k) o')
     @ filter (\<lambda>(k, v). \<not> is_array_index k) o'"

section \<open>TrendAnalyzer\<close>

definition stopWords :: "string list" where
  "stopWords =
     [''the'', ''be'', ''to'', ''of'', ''and'', ''a'', ''in'', ''that'', ''have'', ''i'',
      ''it'', ''for'', ''not'', ''on'', ''with'', ''he'', ''as'', ''you'', ''do'', ''at'',
      ''this'', ''but'', ''his'', ''by'', ''from'', ''they'', ''we'', ''say'', ''her'', ''she'',
      ''or'', ''an'', ''will'', ''my'', ''one'', ''all'', ''would'', ''there'', ''their'',
      ''what'', ''so'', ''up'', ''out'', ''if'', ''about'', ''who'', ''get'', ''which'', ''go'',
      ''me'', ''when'', ''make'', ''can'', ''like'', ''time'', ''no'', ''just'', ''him'', ''know'',
      ''take'', ''people'', ''into'', ''year'', ''your'', ''good'', ''some'', ''could'', ''them'',
      ''see'', ''other'', ''than'', ''then'', ''now'', ''look'', ''only'', ''come'', ''its'', ''over'',
      ''think'', ''also'', ''back'', ''after'', ''use'', ''two'', ''how'', ''our'', ''work'',
      ''first'', ''well'', ''way'', ''even'', ''new'', ''want'', ''because'', ''any'', ''these'',
      ''give'', ''day'', ''most'', ''us'', ''is'', ''was'', ''are'', ''been'', ''has'', ''had'',
      ''were'', ''said'', ''did'', ''having'', ''may'', ''should'', ''am'', ''im'', ''dont'',
      ''doesnt'', ''didnt'', ''isnt'', ''arent'', ''wasnt'', ''werent'', ''wont'', ''wouldnt'',
      ''cant'', ''couldnt'', ''shouldnt'', ''ive'', ''youve'', ''theyve'', ''weve'', ''youre'',
      ''theyre'', ''were'', ''hes'', ''shes'', ''its'', ''thats'', ''whats'', ''heres'', ''theres'']"

definition keep_word :: "string \<Rightarrow> bool" where
  \<comment> \<open>the predicate of \<open>.filter(...)\<close> in \<open>extractKeywords\<close>\<close>
  "keep_word w = (length w > 3 \<and> w \<notin> set stopWords \<and> \<not> is_pure_number w)"

definition extract_words :: "string \<Rightarrow> string list" where
  \<comment> \<open>the array \<open>words\<close> of \<open>extractKeywords\<close>\<close>
  "extract_words text = filter keep_word (split_ws (replace_non_word (toLowerCase text)))"

definition count_word :: "string \<Rightarrow> jsval obj \<Rightarrow> jsval obj" where
  \<comment> \<open>\<open>frequency[word] = (frequency[word] || 0) + 1\<close>\<close>
  "count_word w frequency =
     obj_set frequency w (js_add (js_or (obj_get frequency w) (Num 0)) (Num 1))"

definition extractKeywords :: "string \<Rightarrow> jsval obj" where
  "extractKeywords text = fold count_word (extract_words text) []"

definition merge_entry :: "string \<times> jsval \<Rightarrow> jsval obj \<Rightarrow> jsval obj" where
  \<comment> \<open>\<open>merged[word] = (merged[word] || 0) + count\<close>\<close>
  "merge_entry e merged =
     (case e of (w, count) \<Rightarrow>
        obj_set merged w (js_add (js_or (obj_get merged w) (Num 0)) count))"

definition mergeFrequencies :: "jsval obj list \<Rightarrow> jsval obj" where
  "mergeFrequencies frequencyMaps =
     fold (\<lambda>m merged. fold merge_entry (obj_entries m) merged) frequencyMaps []"

text \<open>
  \<open>ToNumber\<close>, with \<open>None\<close> for \<open>NaN\<close>.  The only strings this program ever stores in a
  frequency map are built by \<open>+\<close> from the text of a prototype member (\<open>function Object()
  { [native code] }\<close> or \<open>[object Object]\<close>); they hold a bracket, and \<open>ToNumber\<close> of such a
  string is \<open>NaN\<close>.
\<close>

fun to_number :: "jsval \<Rightarrow> int option" where
  "to_number (Num n) = Some n"
| "to_number v = None"

definition js_ge :: "jsval \<Rightarrow> int \<Rightarrow> bool" where
  \<comment> \<open>\<open>count >= minFrequency\<close>: false when the left side is not a number\<close>
  "js_ge v m = (case to_number v of Some n \<Rightarrow> n \<ge> m | None \<Rightarrow> False)"

text \<open>
  \<open>Array.prototype.sort\<close> is stable.  \<open>insert_by before\<close> puts an element in front of
  the first one it does not have to follow, so \<open>js_sort\<close> is the stable sort for the
  comparator \<open>cmp\<close> with \<open>before x y = (cmp(x, y) \<le> 0)\<close>.  This is the result of every
  engine when the comparator is a consistent order, as \<open>b[1] - a[1]\<close> is on counts that
  are all numbers (lemma \<open>js_sort_numeric\<close> below) and \<open>b.trendingScore - a.trendingScore\<close>
  is on scores.  On a map with a count that is not a number the comparator gives \<open>NaN\<close>,
  ECMAScript leaves the order to the engine, and \<open>js_sort\<close> gives one permutation, not
  the one of a particular engine; the program itself ranks only maps that the filter
  \<open>count >= minFrequency\<close> has left with numbers alone (lemma \<open>getTopKeywords_filtered\<close>),
  and no property below is about the rank of any other map.
\<close>

fun insert_by :: "('a \<Rightarrow> 'a \<Rightarrow> bool) \<Rightarrow> 'a \<Rightarrow> 'a list \<Rightarrow> 'a list" where
  "insert_by before x [] = [x]"
| "insert_by before x (y # ys) =
     (if before x y then x # y # ys else y # insert_by before x ys)"

definition js_sort :: "('a \<Rightarrow> 'a \<Rightarrow> bool) \<Rightarrow> 'a list \<Rightarrow> 'a list" where
  "js_sort before xs = foldr (insert_by before) xs []"

record trend_entry =
  keyword :: string
  count :: jsval

definition count_desc :: "string \<times> jsval \<Rightarrow> string \<times> jsval \<Rightarrow> bool" where
  \<comment> \<open>\<open>(a, b) => b[1] - a[1]\<close> is at most 0\<close>
  "count_desc a b =
     (case (to_number (snd b), to_number (snd a)) of
        (Some y, Some x) \<Rightarrow> y - x \<le> 0
      | _ \<Rightarrow> True)"

definition getTopKeywords :: "jsval obj \<Rightarrow> nat \<Rightarrow> trend_entry list" where
  "getTopKeywords frequencies limit =
     map (\<lambda>(k, c). \<lparr>keyword = k, count = c\<rparr>)
       (take limit (js_sort count_desc (obj_entries frequencies)))"

text \<open>
  A post as \<open>fetchHotPosts\<close> builds it.  The field \<open>text\<close> of the source is \<open>text'\<close> here;
  the fields of a comment and of a submission carry a prefix where a post has a field of
  the same name.
\<close>

record post =
  subreddit :: string
  title :: string
  text' :: string
  author :: string
  score :: int
  upvote_ratio :: real
  num_comments :: int
  created_utc :: real
  url :: string
  permalink :: string
  id :: string


definition filter_by_frequency :: "jsval obj \<Rightarrow> int \<Rightarrow> jsval obj" where
  \<comment> \<open>\<open>Object.entries(merged).filter(([_, count]) => count >= minFrequency)
      .reduce((acc, [word, count]) => { acc[word] = count; return acc; }, {})\<close>\<close>
  "filter_by_frequency merged minFrequency =
     fold (\<lambda>(w, c) acc. obj_set acc w c)
       (filter (\<lambda>(w, c). js_ge c minFrequency) (obj_entries merged)) []"

definition post_frequencies :: "post \<Rightarrow> jsval obj" where
  "post_frequencies p =
     (let titleFreq = extractKeywords (title p);
          textFreq = (if text' p \<noteq> [] then extractKeywords (text' p) else [])
      in mergeFrequencies [titleFreq, textFreq])"

definition analyzeTrendingKeywords :: "post list \<Rightarrow> int \<Rightarrow> trend_entry list" where
  "analyzeTrendingKeywords posts minFrequency =
     (let allFrequencies = map post_frequencies posts;
          merged = mergeFrequencies allFrequencies;
          filtered = filter_by_frequency merged minFrequency
      in getTopKeywords filtered 30)"


datatype exception = TypeError string

record summary =
  postCount :: nat
  topKeywords :: "trend_entry list"
  avgScore :: real

text \<open>
  \<open>bySubreddit\<close> is a plain object too.  When the name of the subreddit is not an own
  property but a member of \<open>Object.prototype\<close>, the test \<open>!bySubreddit[name]\<close> is
  false, no array is created, and \<open>.push\<close> is looked up on the inherited member, which
  has none: the call throws a \<open>TypeError\<close>, which leaves \<open>getTrendsBySubreddit\<close>.
\<close>

definition group_post :: "post \<Rightarrow> post list obj \<Rightarrow> exception + post list obj" where
  "group_post p bySubreddit =
     (case map_of bySubreddit (subreddit p) of
        Some ps \<Rightarrow> Inr (obj_put bySubreddit (subreddit p) (ps @ [p]))
      | None \<Rightarrow>
          if truthy (prototype_get (subreddit p))
          then Inl (TypeError ''bySubreddit[post.subreddit].push is not a function'')
          else Inr (obj_put bySubreddit (subreddit p) [p]))"

fun group_posts :: "post list \<Rightarrow> post list obj \<Rightarrow> exception + post list obj" where
  "group_posts [] bySubreddit = Inr bySubreddit"
| "group_posts (p # ps) bySubreddit =
     (case group_post p bySubreddit of
        Inl e \<Rightarrow> Inl e
      | Inr bySubreddit' \<Rightarrow> group_posts ps bySubreddit')"

definition summarize :: "post list \<Rightarrow> summary" where
  "summarize subPosts =
     (let keywords = analyzeTrendingKeywords subPosts 2
      in \<lparr>postCount = length subPosts,
          topKeywords = take 10 keywords,
          avgScore = real_of_int (fold (\<lambda>p sum. sum + score p) subPosts 0)
                     / real (length subPosts)\<rparr>)"

definition getTrendsBySubreddit :: "post list \<Rightarrow> exception + summary obj" where
  "getTrendsBySubreddit posts =
     (case group_posts posts [] of
        Inl e \<Rightarrow> Inl e
      | Inr bySubreddit \<Rightarrow>
          Inr (fold (\<lambda>(name, subPosts) trends. obj_put trends name (summarize subPosts))
                 (obj_entries bySubreddit) []))"

text \<open>
  The clock: \<open>now\<close> is the value of \<open>Date.now()\<close>, in milliseconds.  JavaScript numbers
  are taken as real numbers.
\<close>

definition calculateTrendingScore :: "int \<Rightarrow> post \<Rightarrow> real" where
  "calculateTrendingScore now p =
     (let ageInHours = (real_of_int now / 1000 - created_utc p) / 3600;
          ageFactor = max 1 ageInHours;
          engagementScore = real_of_int (score p + num_comments p * 2);
          trendingScore = engagementScore / (ageFactor powr 1.5)
      in trendingScore)"

record scored_post = post +
  trendingScore :: real



section \<open>RedditClient\<close>

text \<open>
  What an upstream call rejects with is an object; the client reads three properties of
  it, each of which may be absent (\<open>undefined\<close>).
\<close>

record js_error =
  statusCode :: "int option"
  message :: "string option"
  ratelimitRemaining :: "int option"

text \<open>A submission as the upstream library returns it, with the fields the client reads.\<close>

record submission =
  display_name :: string
  s_title :: string
  selftext :: string
  author_name :: string
  s_score :: int
  s_upvote_ratio :: real
  s_num_comments :: int
  s_created_utc :: real
  s_url :: string
  s_permalink :: string
  s_id :: string

datatype log_line =
    FetchingHot nat string
  | RateLimitHit real int
  | ServerErrorRetry real int
  | ProcessedRequests nat
  | ApproachingRateLimit
  | ErrorFetching string "string option"
  | ConsiderReducing

datatype event = Sleep real | Request string nat | Log log_line

text \<open>
  The state of a client: its configuration and counters, the number of upstream calls
  issued so far, and the events of the run in the order they happened (waits, upstream
  requests, console lines).
\<close>

record client =
  maxRetries :: int
  requestCount :: nat
  rateLimitRemaining :: "int option"
  calls :: nat
  events :: "event list"

type_synonym 'a action = "client \<Rightarrow> (js_error + 'a) \<times> client"

text \<open>
  The upstream: \<open>reddit k name limit\<close> is the outcome of the \<open>k\<close>-th upstream call when it
  asks for the hot posts of \<open>name\<close>.
\<close>

type_synonym upstream = "nat \<Rightarrow> string \<Rightarrow> nat \<Rightarrow> js_error + submission list"

definition sleep :: "real \<Rightarrow> client \<Rightarrow> client" where
  "sleep ms c = c\<lparr>events := events c @ [Sleep ms]\<rparr>"

definition console :: "log_line \<Rightarrow> client \<Rightarrow> client" where
  "console l c = c\<lparr>events := events c @ [Log l]\<rparr>"

definition sleeps :: "client \<Rightarrow> real list" where
  \<comment> \<open>the waits of a run, in order\<close>
  "sleeps c = concat (map (\<lambda>e. case e of Sleep ms \<Rightarrow> [ms] | _ \<Rightarrow> []) (events c))"

fun js_includes :: "string \<Rightarrow> string \<Rightarrow> bool" where
  \<comment> \<open>\<open>s.includes(sub)\<close>\<close>
  "js_includes [] sub = (sub = [])"
| "js_includes (c # cs) sub = (take (length sub) (c # cs) = sub \<or> js_includes cs sub)"

definition is_rate_limit :: "js_error \<Rightarrow> bool" where
  \<comment> \<open>\<open>error.statusCode === 429 || error.message?.includes('rate limit')\<close>\<close>
  "is_rate_limit e =
     (statusCode e = Some 429
      \<or> (case message e of Some m \<Rightarrow> js_includes m ''rate limit'' | None \<Rightarrow> False))"

definition is_server_error :: "js_error \<Rightarrow> bool" where
  \<comment> \<open>\<open>error.statusCode >= 500\<close>\<close>
  "is_server_error e = (case statusCode e of Some code \<Rightarrow> code \<ge> 500 | None \<Rightarrow> False)"

definition rate_limit_exceeded :: js_error where
  "rate_limit_exceeded =
     \<lparr>statusCode = None,
      message = Some ''Rate limit exceeded. Max retries reached. Please try again later.'',
      ratelimitRemaining = None\<rparr>"

definition includes_of_undefined :: js_error where
  \<comment> \<open>the \<open>TypeError\<close> of \<open>error.message.includes(...)\<close> when \<open>error.message\<close> is
      \<open>undefined\<close>\<close>
  "includes_of_undefined =
     \<lparr>statusCode = None,
      message = Some ''Cannot read properties of undefined (reading includes)'',
      ratelimitRemaining = None\<rparr>"

definition waitTime :: "js_error \<Rightarrow> real \<Rightarrow> real" where
  \<comment> \<open>\<open>error.ratelimitRemaining ? (error.ratelimitRemaining * 1000) + 1000 : delay\<close>\<close>
  "waitTime error delay =
     (case ratelimitRemaining error of
        Some r \<Rightarrow> if r \<noteq> 0 then real_of_int (r * 1000 + 1000) else delay
      | None \<Rightarrow> delay)"

function retryWithBackoff :: "'a action \<Rightarrow> int \<Rightarrow> real \<Rightarrow> 'a action" where
  "retryWithBackoff fn retries delay c =
     (case fn c of
        (Inr v, c1) \<Rightarrow> (Inr v, c1)
      | (Inl error, c1) \<Rightarrow>
          if is_rate_limit error then
            if retries > 0 then
              let c2 = sleep (waitTime error delay)
                         (console (RateLimitHit (waitTime error delay) retries) c1)
              in retryWithBackoff fn (retries - 1) (delay * 2) c2
            else (Inl rate_limit_exceeded, c1)
          else if retries > 0 \<and> is_server_error error then
            let c2 = sleep delay (console (ServerErrorRetry delay retries) c1)
            in retryWithBackoff fn (retries - 1) (delay * 1.5) c2
          else (Inl error, c1))"
  by pat_completeness auto
termination
  by (relation "measure (\<lambda>(fn, retries, delay, c). nat retries)") auto

declare retryWithBackoff.simps [simp del]

definition enforceRateLimit :: "client \<Rightarrow> client" where
  "enforceRateLimit c =
     (let c1 = c\<lparr>requestCount := requestCount c + 1\<rparr>;
          c2 = (if requestCount c1 mod 10 = 0 then console (ProcessedRequests (requestCount c1)) c1
                else c1)
      in case rateLimitRemaining c2 of
           Some r \<Rightarrow> if r \<noteq> 0 \<and> r < 10 then sleep 5000 (console ApproachingRateLimit c2) else c2
         | None \<Rightarrow> c2)"

definition hot_request :: "upstream \<Rightarrow> string \<Rightarrow> nat \<Rightarrow> submission list action" where
  \<comment> \<open>the function handed to \<open>retryWithBackoff\<close> by \<open>fetchHotPosts\<close>\<close>
  "hot_request reddit name limit c =
     (let c1 = enforceRateLimit c
      in (reddit (calls c1) name limit,
          c1\<lparr>calls := calls c1 + 1, events := events c1 @ [Request name limit]\<rparr>))"

definition to_post :: "submission \<Rightarrow> post" where
  "to_post s =
     \<lparr>subreddit = display_name s,
      title = s_title s,
      text' = (if selftext s \<noteq> [] then selftext s else []),
      author = author_name s,
      score = s_score s,
      upvote_ratio = s_upvote_ratio s,
      num_comments = s_num_comments s,
      created_utc = s_created_utc s,
      url = s_url s,
      permalink = ''https://reddit.com'' @ s_permalink s,
      id = s_id s\<rparr>"

definition indexOf :: "string list \<Rightarrow> string \<Rightarrow> nat" where
  \<comment> \<open>the first position of an element that occurs in the list\<close>
  "indexOf xs x = length (takeWhile (\<lambda>y. y \<noteq> x) xs)"

text \<open>
  The loop of \<open>fetchHotPosts\<close> over the sources still to fetch; \<open>subreddits\<close> is the whole
  list, which the delay between sources consults.  A submission has every field the
  loop reads, so building the posts throws nothing; the only errors the \<open>try\<close> block
  sees are those of \<open>retryWithBackoff\<close>.  The \<open>catch\<close> block logs the error and then
  evaluates \<open>error.message.includes('rate limit')\<close>, without the \<open>?.\<close> that
  \<open>retryWithBackoff\<close> has: on an error without message this throws a \<open>TypeError\<close>,
  which no handler catches, so it ends \<open>fetchHotPosts\<close>.  Otherwise the loop goes on
  with the next source.
\<close>

fun fetch_sources ::
  "upstream \<Rightarrow> string list \<Rightarrow> nat \<Rightarrow> string list \<Rightarrow> post list \<Rightarrow> client
     \<Rightarrow> (js_error + post list) \<times> client"
where
  "fetch_sources reddit subreddits limit [] allPosts c = (Inr allPosts, c)"
| "fetch_sources reddit subreddits limit (name # rest) allPosts c =
     (case retryWithBackoff (hot_request reddit name limit) (maxRetries c) 2000
             (console (FetchingHot limit name) c) of
        (Inr posts, c1) \<Rightarrow>
          fetch_sources reddit subreddits limit rest (allPosts @ map to_post posts)
            (if int (indexOf subreddits name) < int (length subreddits) - 1
             then sleep 1000 c1 else c1)
      | (Inl error, c1) \<Rightarrow>
          (case message error of
             None \<Rightarrow>
               (Inl includes_of_undefined, console (ErrorFetching name (message error)) c1)
           | Some m \<Rightarrow>
               fetch_sources reddit subreddits limit rest allPosts
                 (let c2 = console (ErrorFetching name (message error)) c1
                  in if js_includes m ''rate limit'' then console ConsiderReducing c2
                     else c2)))"

definition fetchHotPosts ::
  "upstream \<Rightarrow> string list \<Rightarrow> nat \<Rightarrow> client \<Rightarrow> (js_error + post list) \<times> client" where
  "fetchHotPosts reddit subreddits limit c = fetch_sources reddit subreddits limit subreddits [] c"

definition new_client :: "int \<Rightarrow> client" where
  \<comment> \<open>the counters as the constructor leaves them\<close>
  "new_client retries =
     \<lparr>maxRetries = retries, requestCount = 0, rateLimitRemaining = None, calls = 0, events = []\<rparr>"

section \<open>Vocabulary of the properties\<close>

definition is_lower_letter :: "char \<Rightarrow> bool" where
  "is_lower_letter c = (let n = (of_char c :: nat) in 97 \<le> n \<and> n \<le> 122)"

definition is_punctuation :: "char \<Rightarrow> bool" where
  \<comment> \<open>the ASCII punctuation characters: the printable ones that are neither a letter,
      nor a digit, nor the space\<close>
  "is_punctuation c =
     (let n = (of_char c :: nat)
      in (33 \<le> n \<and> n \<le> 47) \<or> (58 \<le> n \<and> n \<le> 64) \<or> (91 \<le> n \<and> n \<le> 96)
         \<or> (123 \<le> n \<and> n \<le> 126))"

definition positive_count :: "jsval \<Rightarrow> bool" where
  \<comment> \<open>a number that is at least 1\<close>
  "positive_count v = (case v of Num n \<Rightarrow> n \<ge> 1 | _ \<Rightarrow> False)"

definition counts_ok :: "jsval obj \<Rightarrow> string \<Rightarrow> bool" where
  "counts_ok ps w = (\<forall>c. (w, c) \<in> set ps \<longrightarrow> positive_count c)"

definition stored_value :: "jsval \<Rightarrow> bool" where
  \<comment> \<open>a number, or a string that holds a bracket and so is no numeral\<close>
  "stored_value v = (case v of Num n \<Rightarrow> True | Str s \<Rightarrow> CHR ''['' \<in> set s | _ \<Rightarrow> False)"

definition attempted :: "client \<Rightarrow> string list" where
  \<comment> \<open>the sources whose fetch has been started, in order\<close>
  "attempted c =
     concat (map (\<lambda>e. case e of Log (FetchingHot limit name) \<Rightarrow> [name] | _ \<Rightarrow> []) (events c))"

definition upstream_call :: "'a action \<Rightarrow> (nat \<Rightarrow> js_error + 'a) \<Rightarrow> bool" where
  \<comment> \<open>\<open>fn\<close> issues one upstream call and does nothing else: on a client that is not
      throttled (its \<open>rateLimitRemaining\<close> is \<open>null\<close>) its outcome is \<open>up k\<close> when it is the
      call number \<open>k\<close>, it counts the call, and it does not wait\<close>
  "upstream_call fn up =
     (\<forall>c. rateLimitRemaining c = None \<longrightarrow>
        fst (fn c) = up (calls c) \<and> calls (snd (fn c)) = calls c + 1
        \<and> sleeps (snd (fn c)) = sleeps c \<and> rateLimitRemaining (snd (fn c)) = None)"


definition post_keywords :: "post \<Rightarrow> string set" where
  \<comment> \<open>the keywords that occur in the title or the body of a post\<close>
  "post_keywords p = set (extract_words (title p)) \<union> set (extract_words (text' p))"

subsection \<open>Example inputs\<close>

definition example_post :: "string \<Rightarrow> string \<Rightarrow> int \<Rightarrow> real \<Rightarrow> post" where
  "example_post name heading points created =
     \<lparr>subreddit = name, title = heading, text' = [], author = ''someone'',
      score = points, upvote_ratio = 1, num_comments = 50, created_utc = created,
      url = [], permalink = [], id = ''abc''\<rparr>"

definition two_posts :: "post list" where
  "two_posts = [example_post ''news'' ''The Game is SO GOOD!!'' 100 0,
                example_post ''news'' ''Another game'' 50 0]"

definition too_many_requests :: "int option \<Rightarrow> js_error" where
  "too_many_requests hint =
     \<lparr>statusCode = Some 429, message = Some ''Too Many Requests'',
      ratelimitRemaining = hint\<rparr>"

definition not_found :: js_error where
  "not_found =
     \<lparr>statusCode = Some 404, message = Some ''Not Found'', ratelimitRemaining = None\<rparr>"

definition no_message :: js_error where
  \<comment> \<open>a rejection with a status code and no message\<close>
  "no_message = \<lparr>statusCode = Some 404, message = None, ratelimitRemaining = None\<rparr>"

definition example_submission :: "string \<Rightarrow> string \<Rightarrow> submission" where
  "example_submission name heading =
     \<lparr>display_name = name, s_title = heading, selftext = [], author_name = ''someone'',
      s_score = 1, s_upvote_ratio = 1, s_num_comments = 0, s_created_utc = 0,
      s_url = [], s_permalink = ''/r/x'', s_id = ''abc''\<rparr>"

definition always_429 :: upstream where
  \<comment> \<open>every upstream call is rejected with status 429\<close>
  "always_429 k name limit = Inl (too_many_requests None)"

definition twice_429 :: upstream where
  \<comment> \<open>the first two upstream calls are rejected with a hint of 1, the later ones succeed\<close>
  "twice_429 k name limit =
     (if k < 2 then Inl (too_many_requests (Some 1))
      else Inr [example_submission name ''hello''])"

definition mixed_429 :: upstream where
  \<comment> \<open>the first upstream call is rejected with a hint of 4, the second without a hint,
      the later ones succeed\<close>
  "mixed_429 k name limit =
     (if k = 0 then Inl (too_many_requests (Some 4))
      else if k = 1 then Inl (too_many_requests None)
      else Inr [example_submission name ''hello''])"

definition four_429 :: upstream where
  \<comment> \<open>the upstream calls number 1 to 4 are rejected, all others succeed\<close>
  "four_429 k name limit =
     (if 1 \<le> k \<and> k \<le> 4 then Inl (too_many_requests None)
      else Inr [example_submission name ''hello''])"

definition second_fails :: upstream where
  \<comment> \<open>three sources, the second of which does not exist\<close>
  "second_fails k name limit =
     (if name = ''two'' then Inl not_found else Inr [example_submission name ''hello''])"

definition second_silent :: upstream where
  \<comment> \<open>three sources, the second of which is rejected without a message\<close>
  "second_silent k name limit =
     (if name = ''two'' then Inl no_message else Inr [example_submission name ''hello''])"

definition many_keywords :: string where
  \<comment> \<open>31 different keywords\<close>
  "many_keywords =
     ''kwaa kwab kwac kwad kwae kwaf kwag kwah kwai kwaj kwak kwal kwam kwan kwao kwap ''
     @ ''kwaq kwar kwas kwat kwau kwav kwaw kwax kway kwaz kwba kwbb kwbc kwbd kwbe''"

section \<open>The worked example of \<open>extractKeywords\<close>\<close>

text \<open>
  C1 (as the code has it): for the input \<open>The Game is SO GOOD!!\<close>, extractKeywords returns
  exactly the frequency map \<open>{game: 1}\<close>: \<open>good\<close> is a member of the stop-word set and
  is dropped like \<open>the\<close>, \<open>is\<close> and \<open>so\<close>.
\<close>

theorem extractKeywords_example:
  "extractKeywords ''The Game is SO GOOD!!'' = [(''game'', Num 1)]"
  by code_simp

text \<open>
  C1 as stated fails: the result is not the map \<open>{game: 1, good: 1}\<close>, it has no entry
  for \<open>good\<close>.
\<close>

theorem extractKeywords_example_counterexample:
  "extractKeywords ''The Game is SO GOOD!!'' \<noteq> [(''game'', Num 1), (''good'', Num 1)]
   \<and> map_of (extractKeywords ''The Game is SO GOOD!!'') ''good'' = None
   \<and> ''good'' \<in> set stopWords"
  by code_simp

section \<open>Supporting lemmas\<close>

subsection \<open>Plain objects\<close>

lemma obj_put_member: "(k, v) \<in> set (obj_put ps k v)"
  by (induction ps) auto

lemma obj_put_subset: "set (obj_put ps k v) \<subseteq> insert (k, v) (set ps)"
  by (induction ps) (auto split: if_splits)

lemma map_fst_obj_put:
  "map fst (obj_put ps k v) = (if k \<in> set (map fst ps) then map fst ps else map fst ps @ [k])"
  by (induction ps) force+

lemma obj_put_keys: "fst ` set (obj_put ps k v) = insert k (fst ` set ps)"
proof -
  have "set (map fst (obj_put ps k v)) = insert k (set (map fst ps))"
    unfolding map_fst_obj_put by auto
  then show ?thesis by simp
qed

lemma obj_put_other: "k' \<noteq> k \<Longrightarrow> (k', x) \<in> set (obj_put ps k v) \<longleftrightarrow> (k', x) \<in> set ps"
  by (induction ps) (auto split: if_splits)

lemma obj_put_distinct: "distinct (map fst ps) \<Longrightarrow> distinct (map fst (obj_put ps k v))"
  unfolding map_fst_obj_put by simp

lemma map_of_obj_put: "map_of (obj_put ps k v) = (map_of ps)(k \<mapsto> v)"
  by (induction ps) (auto simp: fun_eq_iff)

lemma set_obj_entries: "set (obj_entries ps) = set ps"
  by (auto simp: obj_entries_def)

lemma length_obj_entries: "length (obj_entries ps) = length ps"
proof -
  have "length (filter (\<lambda>(k, v). is_array_index k) ps)
        + length (filter (\<lambda>(k, v). \<not> is_array_index k) ps) = length ps"
    using sum_length_filter_compl [of "\<lambda>(k, v). is_array_index k" ps]
    by (simp add: case_prod_unfold)
  then show ?thesis by (simp add: obj_entries_def)
qed

lemma set_insert_by: "set (insert_by before x ys) = insert x (set ys)"
  by (induction ys) auto

lemma length_insert_by: "length (insert_by before x ys) = Suc (length ys)"
  by (induction ys) auto

lemma set_js_sort: "set (js_sort before xs) = set xs"
  by (induction xs) (auto simp: js_sort_def set_insert_by)

lemma length_js_sort: "length (js_sort before xs) = length xs"
  by (induction xs) (auto simp: js_sort_def length_insert_by)

subsection \<open>Characters\<close>

lemma lower_char_not_upper: "\<not> is_upper_char (lower_char c)"
  by (auto simp: lower_char_def is_upper_char_def Let_def)

lemma split_from_chars:
  "w \<in> set (split_from cur cs) \<Longrightarrow> d \<in> set w
     \<Longrightarrow> d \<in> set cur \<or> (d \<in> set cs \<and> \<not> is_space_char d)"
proof (induction cur cs arbitrary: w rule: split_from.induct)
  case (1 cur)
  then show ?case by simp
next
  case (2 cur c cs)
  show ?case
  proof (cases "is_space_char c")
    case True
    with 2 show ?thesis by (auto dest: set_dropWhileD)
  next
    case False
    with 2 show ?thesis by auto
  qed
qed

lemma split_ws_chars: "w \<in> set (split_ws s) \<Longrightarrow> d \<in> set w \<Longrightarrow> d \<in> set s \<and> \<not> is_space_char d"
  using split_from_chars [of w "[]" s d] by (simp add: split_ws_def)

lemma space_is_space: "is_space_char CHR '' ''"
  by (simp add: is_space_char_def)

lemma token_chars:
  assumes "w \<in> set (split_ws (replace_non_word (toLowerCase t)))" and "d \<in> set w"
  shows "is_word_char d \<and> \<not> is_upper_char d"
proof -
  from assms have d: "d \<in> set (replace_non_word (toLowerCase t))" and ns: "\<not> is_space_char d"
    using split_ws_chars by blast+
  from d obtain c where c: "c \<in> set t"
    and dc: "d = (if \<not> is_word_char (lower_char c) \<and> \<not> is_space_char (lower_char c)
                  then CHR '' '' else lower_char c)"
    by (auto simp: replace_non_word_def toLowerCase_def)
  show ?thesis
  proof (cases "\<not> is_word_char (lower_char c) \<and> \<not> is_space_char (lower_char c)")
    case True
    with dc ns space_is_space show ?thesis by simp
  next
    case False
    with dc have "d = lower_char c" by simp
    with False ns show ?thesis using lower_char_not_upper by auto
  qed
qed

lemma extract_words_chars:
  "w \<in> set (extract_words t) \<Longrightarrow> d \<in> set w \<Longrightarrow> is_word_char d \<and> \<not> is_upper_char d"
  using token_chars by (auto simp: extract_words_def)

lemma extract_words_keep: "w \<in> set (extract_words t) \<Longrightarrow> keep_word w"
  by (auto simp: extract_words_def)

lemma extract_words_empty: "extract_words [] = []"
  by (simp add: extract_words_def toLowerCase_def replace_non_word_def split_ws_def keep_word_def)

subsection \<open>Counting\<close>

lemma positive_count_iff: "positive_count v \<longleftrightarrow> (\<exists>n\<ge>1. v = Num n)"
  by (cases v) (auto simp: positive_count_def)

lemma count_word_merge_entry: "count_word = (\<lambda>w. merge_entry (w, Num 1))"
  by (simp add: fun_eq_iff count_word_def merge_entry_def)

lemma fold_concat_lists: "fold f (concat xss) s = fold (fold f) xss s"
  by (induction xss arbitrary: s) simp_all

lemma extractKeywords_fold:
  "extractKeywords t = fold merge_entry (map (\<lambda>w. (w, Num 1)) (extract_words t)) []"
  by (simp add: extractKeywords_def fold_map count_word_merge_entry comp_def)

lemma mergeFrequencies_fold:
  "mergeFrequencies ms = fold merge_entry (concat (map obj_entries ms)) []"
  by (simp add: mergeFrequencies_def fold_concat_lists fold_map comp_def)

lemma prototype_get_proto: "prototype_get k = Undefined \<Longrightarrow> k \<noteq> ''__proto__''"
  by (auto simp: prototype_get_def)

lemma merge_entry_keys:
  "fst ` set (merge_entry (k, c) acc) = (if k = ''__proto__'' then fst ` set acc
                                         else insert k (fst ` set acc))"
  by (simp add: merge_entry_def obj_set_def obj_put_keys)

lemma merge_entry_distinct:
  "distinct (map fst acc) \<Longrightarrow> distinct (map fst (merge_entry e acc))"
  by (cases e) (simp add: merge_entry_def obj_set_def obj_put_distinct)

lemma merge_entry_other:
  "k \<noteq> w \<Longrightarrow> (w, x) \<in> set (merge_entry (k, c) acc) \<longleftrightarrow> (w, x) \<in> set acc"
  by (simp add: merge_entry_def obj_set_def obj_put_other)

lemma merge_entry_same:
  assumes "prototype_get w = Undefined" and "counts_ok acc w" and "positive_count c"
  shows "counts_ok (merge_entry (w, c) acc) w"
proof -
  from assms(3) obtain n where c: "c = Num n" and n: "n \<ge> 1"
    by (auto simp: positive_count_iff)
  have "positive_count (js_add (js_or (obj_get acc w) (Num 0)) c)"
  proof (cases "map_of acc w")
    case None
    with assms(1) c n show ?thesis
      by (simp add: obj_get_def js_or_def js_add_def positive_count_def)
  next
    case (Some v)
    then have "(w, v) \<in> set acc" by (rule map_of_SomeD)
    with assms(2) obtain m where "v = Num m" and "m \<ge> 1"
      by (auto simp: counts_ok_def positive_count_iff)
    with Some c n show ?thesis
      by (simp add: obj_get_def js_or_def js_add_def positive_count_def)
  qed
  moreover have "w \<noteq> ''__proto__''" using assms(1) by (rule prototype_get_proto)
  ultimately show ?thesis
    using assms(2) obj_put_subset [of acc w]
    by (auto simp: counts_ok_def merge_entry_def obj_set_def)
qed

lemma fold_merge_entry_counts:
  assumes "prototype_get w = Undefined"
  shows "counts_ok acc w \<Longrightarrow> \<forall>c. (w, c) \<in> set es \<longrightarrow> positive_count c
           \<Longrightarrow> counts_ok (fold merge_entry es acc) w"
proof (induction es arbitrary: acc)
  case Nil
  then show ?case by simp
next
  case (Cons e es)
  obtain k c where e: "e = (k, c)" by (cases e)
  have "counts_ok (merge_entry e acc) w"
  proof (cases "k = w")
    case True
    with Cons.prems e assms show ?thesis by (simp add: merge_entry_same)
  next
    case False
    with Cons.prems(1) e show ?thesis by (simp add: counts_ok_def merge_entry_other)
  qed
  with Cons show ?case by simp
qed

lemma fold_merge_entry_keys:
  "fst ` set (fold merge_entry es acc) = fst ` set acc \<union> (fst ` set es - {''__proto__''})"
proof (induction es arbitrary: acc)
  case Nil
  then show ?case by simp
next
  case (Cons e es)
  obtain k c where e: "e = (k, c)" by (cases e)
  show ?case unfolding fold_simps Cons.IH e merge_entry_keys by auto
qed

lemma fold_merge_entry_distinct:
  "distinct (map fst acc) \<Longrightarrow> distinct (map fst (fold merge_entry es acc))"
  by (induction es arbitrary: acc) (simp_all add: merge_entry_distinct)

lemma extractKeywords_keys:
  "fst ` set (extractKeywords t) = set (extract_words t) - {''__proto__''}"
  by (simp add: extractKeywords_fold fold_merge_entry_keys image_image)

lemma extractKeywords_distinct: "distinct (map fst (extractKeywords t))"
  by (simp add: extractKeywords_fold fold_merge_entry_distinct)

lemma extractKeywords_counts:
  "prototype_get w = Undefined \<Longrightarrow> counts_ok (extractKeywords t) w"
  unfolding extractKeywords_fold
  by (rule fold_merge_entry_counts) (auto simp: counts_ok_def positive_count_def)

lemma mergeFrequencies_keys:
  "fst ` set (mergeFrequencies ms) = (\<Union>m\<in>set ms. fst ` set m) - {''__proto__''}"
  by (auto simp: mergeFrequencies_fold fold_merge_entry_keys set_obj_entries)

lemma mergeFrequencies_distinct: "distinct (map fst (mergeFrequencies ms))"
  by (simp add: mergeFrequencies_fold fold_merge_entry_distinct)

lemma mergeFrequencies_counts:
  "prototype_get w = Undefined \<Longrightarrow> \<forall>m\<in>set ms. counts_ok m w
     \<Longrightarrow> counts_ok (mergeFrequencies ms) w"
  unfolding mergeFrequencies_fold
  by (rule fold_merge_entry_counts) (auto simp: counts_ok_def set_obj_entries)

lemma prototype_functions_upper:
  "k \<in> set object_prototype_functions \<Longrightarrow> \<exists>c\<in>set k. is_upper_char c"
proof -
  have "list_all (list_ex is_upper_char) object_prototype_functions" by code_simp
  then show "k \<in> set object_prototype_functions \<Longrightarrow> \<exists>c\<in>set k. is_upper_char c"
    by (auto simp: list_all_iff list_ex_iff)
qed

lemma keyword_not_inherited:
  assumes "w \<in> set (extract_words t)" and "w \<noteq> ''constructor''" and "w \<noteq> ''__proto__''"
  shows "prototype_get w = Undefined"
proof -
  have "w \<notin> set object_prototype_functions"
    using prototype_functions_upper [of w] extract_words_chars [OF assms(1)] by blast
  with assms(2,3) show ?thesis by (simp add: prototype_get_def)
qed

subsection \<open>The values that are stored\<close>

lemma merge_entry_stored:
  assumes acc: "\<forall>(k, v)\<in>set acc. stored_value v" and c: "stored_value c"
  shows "\<forall>(k, v)\<in>set (merge_entry (w, c) acc). stored_value v"
proof -
  let ?old = "js_or (obj_get acc w) (Num 0)"
  have old: "(\<exists>n. ?old = Num n) \<or> (\<exists>s. ?old = Str s \<and> CHR ''['' \<in> set s)
             \<or> (\<exists>f. ?old = NativeFunction f) \<or> ?old = ObjectPrototype"
  proof (cases "map_of acc w")
    case None
    then show ?thesis
      by (auto simp: obj_get_def js_or_def prototype_get_def)
  next
    case (Some v)
    then have "(w, v) \<in> set acc" by (rule map_of_SomeD)
    with acc have "stored_value v" by auto
    with Some show ?thesis
      by (cases v) (auto simp: obj_get_def js_or_def stored_value_def)
  qed
  have "stored_value (js_add ?old c)"
    using old c by (cases c) (auto simp: js_add_def stored_value_def to_string_def Let_def)
  then show ?thesis
    using acc obj_put_subset [of acc w "js_add ?old c"]
    by (auto simp: merge_entry_def obj_set_def)
qed

lemma fold_merge_entry_stored:
  "\<forall>(k, v)\<in>set acc. stored_value v \<Longrightarrow> \<forall>(k, v)\<in>set es. stored_value v
     \<Longrightarrow> \<forall>(k, v)\<in>set (fold merge_entry es acc). stored_value v"
proof (induction es arbitrary: acc)
  case Nil
  then show ?case by simp
next
  case (Cons e es)
  obtain w c where e: "e = (w, c)" by (cases e)
  from Cons.prems(2) e have c: "stored_value c" and es: "\<forall>(k, v)\<in>set es. stored_value v"
    by simp_all
  from Cons.prems(1) c have "\<forall>(k, v)\<in>set (merge_entry (w, c) acc). stored_value v"
    by (rule merge_entry_stored)
  from Cons.IH [OF this es] e show ?case by simp
qed

lemma extractKeywords_stored: "\<forall>(k, v)\<in>set (extractKeywords t). stored_value v"
  unfolding extractKeywords_fold
  by (rule fold_merge_entry_stored) (auto simp: stored_value_def)

lemma mergeFrequencies_stored:
  "\<forall>m\<in>set ms. \<forall>(k, v)\<in>set m. stored_value v
     \<Longrightarrow> \<forall>(k, v)\<in>set (mergeFrequencies ms). stored_value v"
  unfolding mergeFrequencies_fold
  by (rule fold_merge_entry_stored) (auto simp: set_obj_entries)

section \<open>The shape of the keys\<close>

lemma char95: "of_char c = (95::nat) \<Longrightarrow> c = CHR ''_''"
proof -
  assume "of_char c = (95::nat)"
  then have "(of_char c :: nat) = of_char CHR ''_''" by simp
  then show ?thesis by (simp only: of_char_eq_iff)
qed

lemma word_char_shape:
  assumes "is_word_char c" and "\<not> is_upper_char c"
  shows "is_lower_letter c \<or> is_digit_char c \<or> c = CHR ''_''"
  using assms char95 [of c]
  by (auto simp: is_word_char_def is_upper_char_def is_lower_letter_def is_digit_char_def Let_def)

lemma word_char_punctuation:
  assumes "is_word_char c" and "is_punctuation c"
  shows "c = CHR ''_''"
  using assms char95 [of c]
  by (auto simp: is_word_char_def is_punctuation_def Let_def)

text \<open>
  C5 (as the code has it): for every input text, every key of the frequency map returned
  by extractKeywords has length strictly greater than 3, consists only of lowercase ASCII
  letters, digits and underscores (so it has no capital letter and no punctuation
  character other than the underscore, which \<open>\w\<close> keeps), is not a member of the fixed
  stop-word set, and is not purely numeric.
\<close>

theorem extractKeywords_key_shape:
  assumes "(k, v) \<in> set (extractKeywords t)"
  shows "length k > 3
         \<and> (\<forall>c\<in>set k. is_lower_letter c \<or> is_digit_char c \<or> c = CHR ''_'')
         \<and> (\<forall>c\<in>set k. \<not> is_upper_char c)
         \<and> (\<forall>c\<in>set k. is_punctuation c \<longrightarrow> c = CHR ''_'')
         \<and> k \<notin> set stopWords
         \<and> \<not> is_pure_number k"
proof -
  from assms have "k \<in> fst ` set (extractKeywords t)" by force
  then have k: "k \<in> set (extract_words t)" by (simp add: extractKeywords_keys)
  then have "keep_word k" by (rule extract_words_keep)
  moreover have "\<forall>c\<in>set k. is_word_char c \<and> \<not> is_upper_char c"
    using extract_words_chars [OF k] by blast
  ultimately show ?thesis
    using word_char_shape word_char_punctuation by (auto simp: keep_word_def)
qed

theorem extractKeywords_key_shape_witness:
  "(''game'', Num 1) \<in> set (extractKeywords ''The Game is SO GOOD!!'')
   \<and> length ''game'' > 3
   \<and> list_all (\<lambda>c. is_lower_letter c \<or> is_digit_char c \<or> c = CHR ''_'') ''game''
   \<and> ''game'' \<notin> set stopWords
   \<and> \<not> is_pure_number ''game''"
proof -
  have h: "(''game'', Num 1) \<in> set (extractKeywords ''The Game is SO GOOD!!'')"
    by code_simp
  from extractKeywords_key_shape [OF h] h show ?thesis
    unfolding list_all_iff by blast
qed

text \<open>
  C5 as stated fails: the underscore is a punctuation character, and \<open>snake_case\<close> is
  returned as a key.
\<close>

theorem extractKeywords_punctuation_counterexample:
  "(''snake_case'', Num 1) \<in> set (extractKeywords ''snake_case'')
   \<and> CHR ''_'' \<in> set ''snake_case'' \<and> is_punctuation CHR ''_''"
  by code_simp

section \<open>The trending score\<close>

lemma four_powr: "(4::real) powr 1.5 = 8"
proof -
  have "(4::real) powr 1.5 = (2 powr 2) powr 1.5" by simp
  also have "\<dots> = 2 powr 3" unfolding powr_powr by simp
  also have "\<dots> = 8" by (simp add: powr_numeral)
  finally show ?thesis .
qed

text \<open>
  C6: for every post, calculateTrendingScore equals
  \<open>(score + 2 * commentCount) / max(1, (now - createdAt)/3600)^1.5\<close>, where \<open>now\<close> is the
  clock in seconds; a post with score 100 and 50 comments created at the current instant
  scores 200, and the same post created 4 hours ago scores 25.
\<close>

theorem calculateTrendingScore_formula:
  "calculateTrendingScore now p
     = real_of_int (score p + 2 * num_comments p)
       / (max 1 ((real_of_int now / 1000 - created_utc p) / 3600)) powr 1.5
   \<and> (score p = 100 \<and> num_comments p = 50 \<and> created_utc p = real_of_int now / 1000
        \<longrightarrow> calculateTrendingScore now p = 200)
   \<and> (score p = 100 \<and> num_comments p = 50
        \<and> created_utc p = real_of_int now / 1000 - 4 * 3600
        \<longrightarrow> calculateTrendingScore now p = 25)"
  by (simp add: calculateTrendingScore_def Let_def mult.commute four_powr)

theorem calculateTrendingScore_formula_witness:
  "score (example_post ''news'' ''title'' 100 1700000000) = 100
   \<and> num_comments (example_post ''news'' ''title'' 100 1700000000) = 50
   \<and> created_utc (example_post ''news'' ''title'' 100 1700000000) = real_of_int 1700000000000 / 1000
   \<and> calculateTrendingScore 1700000000000 (example_post ''news'' ''title'' 100 1700000000) = 200
   \<and> created_utc (example_post ''news'' ''title'' 100 1699985600)
       = real_of_int 1700000000000 / 1000 - 4 * 3600
   \<and> calculateTrendingScore 1700000000000 (example_post ''news'' ''title'' 100 1699985600) = 25"
  using calculateTrendingScore_formula
          [where p = "example_post ''news'' ''title'' 100 1700000000" and now = 1700000000000]
        calculateTrendingScore_formula
          [where p = "example_post ''news'' ''title'' 100 1699985600" and now = 1700000000000]
  by (simp add: example_post_def)

section \<open>The threshold 0 and the cap of the ranking\<close>

lemma fold_obj_set_keys:
  "fst ` set (fold (\<lambda>(w, c) acc. obj_set acc w c) es acc)
     = fst ` set acc \<union> (fst ` set es - {''__proto__''})"
proof (induction es arbitrary: acc)
  case Nil
  then show ?case by simp
next
  case (Cons e es)
  obtain k c where e: "e = (k, c)" by (cases e)
  show ?case unfolding fold_simps Cons.IH e by (auto simp: obj_set_def obj_put_keys)
qed

lemma fold_obj_set_distinct:
  "distinct (map fst acc) \<Longrightarrow> distinct (map fst (fold (\<lambda>(w, c) acc. obj_set acc w c) es acc))"
proof (induction es arbitrary: acc)
  case Nil
  then show ?case by simp
next
  case (Cons e es)
  obtain k c where e: "e = (k, c)" by (cases e)
  from Cons.prems have "distinct (map fst (obj_set acc k c))"
    by (simp add: obj_set_def obj_put_distinct)
  with Cons.IH e show ?case by simp
qed

lemma filter_by_frequency_distinct: "distinct (map fst (filter_by_frequency merged m))"
  by (simp add: filter_by_frequency_def fold_obj_set_distinct)

lemma filter_by_frequency_keys_subset:
  "fst ` set (filter_by_frequency merged m) \<subseteq> fst ` set merged"
  by (auto simp: filter_by_frequency_def fold_obj_set_keys set_obj_entries)

lemma filter_by_frequency_keeps:
  assumes "(w, Num n) \<in> set merged" and "n \<ge> m" and "w \<noteq> ''__proto__''"
  shows "w \<in> fst ` set (filter_by_frequency merged m)"
proof -
  have "(w, Num n) \<in> set (filter (\<lambda>(w, c). js_ge c m) (obj_entries merged))"
    using assms(1,2) by (simp add: set_obj_entries js_ge_def)
  then have "w \<in> fst ` set (filter (\<lambda>(w, c). js_ge c m) (obj_entries merged))"
    by force
  with assms(3) show ?thesis
    unfolding filter_by_frequency_def fold_obj_set_keys by simp
qed

lemma getTopKeywords_all:
  assumes "length frequencies \<le> limit"
  shows "keyword ` set (getTopKeywords frequencies limit) = fst ` set frequencies"
proof -
  have "length (js_sort count_desc (obj_entries frequencies)) \<le> limit"
    using assms by (simp add: length_js_sort length_obj_entries)
  then have "set (take limit (js_sort count_desc (obj_entries frequencies))) = set frequencies"
    by (simp add: set_js_sort set_obj_entries)
  then show ?thesis
    by (force simp: getTopKeywords_def image_image case_prod_unfold)
qed

lemma counts_ok_Nil: "counts_ok [] w"
  by (simp add: counts_ok_def)

lemma post_frequencies_keys:
  "fst ` set (post_frequencies p) = post_keywords p - {''__proto__''}"
proof (cases "text' p = []")
  case True
  then show ?thesis
    by (simp add: post_frequencies_def mergeFrequencies_keys extractKeywords_keys
        post_keywords_def extract_words_empty)
next
  case False
  then have "fst ` set (post_frequencies p)
      = ((set (extract_words (title p)) - {''__proto__''})
         \<union> (set (extract_words (text' p)) - {''__proto__''})) - {''__proto__''}"
    by (simp add: post_frequencies_def mergeFrequencies_keys extractKeywords_keys)
  then show ?thesis unfolding post_keywords_def by blast
qed

lemma post_frequencies_counts:
  assumes "prototype_get w = Undefined"
  shows "counts_ok (post_frequencies p) w"
  unfolding post_frequencies_def Let_def
  using assms
  by (rule mergeFrequencies_counts) (simp add: extractKeywords_counts [OF assms] counts_ok_Nil)

lemma post_keywords_not_inherited:
  assumes "w \<in> post_keywords p" and "w \<noteq> ''constructor''" and "w \<noteq> ''__proto__''"
  shows "prototype_get w = Undefined"
  using assms keyword_not_inherited by (auto simp: post_keywords_def)

text \<open>
  C4 (as the code has it): for every list of posts whose titles and bodies contain at
  most 30 different keywords, every keyword other than \<open>constructor\<close> and \<open>__proto__\<close>
  that occurs at least once in a post's title or body text appears in the result of
  \<open>analyzeTrendingKeywords(posts, 0)\<close>: the threshold 0 filters no counted keyword out,
  and the ranking is cut after 30 entries.
\<close>

theorem analyzeTrendingKeywords_threshold_zero:
  assumes few: "card (\<Union>p\<in>set posts. post_keywords p) \<le> 30"
      and p: "p \<in> set posts" and w: "w \<in> post_keywords p"
      and nc: "w \<noteq> ''constructor''" and np: "w \<noteq> ''__proto__''"
  shows "w \<in> keyword ` set (analyzeTrendingKeywords posts 0)"
proof -
  let ?merged = "mergeFrequencies (map post_frequencies posts)"
  let ?filtered = "filter_by_frequency ?merged 0"
  have inh: "prototype_get w = Undefined"
    using w nc np by (rule post_keywords_not_inherited)
  have keys: "fst ` set ?merged = (\<Union>p\<in>set posts. post_keywords p) - {''__proto__''}"
    by (auto simp: mergeFrequencies_keys post_frequencies_keys)
  with p w np have "w \<in> fst ` set ?merged" by auto
  then obtain c where c: "(w, c) \<in> set ?merged" by auto
  have "counts_ok ?merged w"
    using inh by (rule mergeFrequencies_counts) (simp add: post_frequencies_counts [OF inh])
  with c obtain n where "c = Num n" and "n \<ge> 1"
    by (auto simp: counts_ok_def positive_count_iff)
  with c have "(w, Num n) \<in> set ?merged" and "n \<ge> 0" by auto
  then have in_filtered: "w \<in> fst ` set ?filtered"
    using np by (rule filter_by_frequency_keeps)
  have fin: "finite (\<Union>p\<in>set posts. post_keywords p)"
    by (simp add: post_keywords_def)
  have "length ?filtered = card (fst ` set ?filtered)"
    using distinct_card [OF filter_by_frequency_distinct [of ?merged 0]] by simp
  also have "\<dots> \<le> card (\<Union>p\<in>set posts. post_keywords p)"
    using filter_by_frequency_keys_subset [of ?merged 0] keys
    by (intro card_mono [OF fin]) auto
  finally have "length ?filtered \<le> 30" using few by simp
  then have "keyword ` set (getTopKeywords ?filtered 30) = fst ` set ?filtered"
    by (rule getTopKeywords_all)
  with in_filtered show ?thesis
    by (simp add: analyzeTrendingKeywords_def Let_def)
qed

theorem analyzeTrendingKeywords_threshold_zero_witness:
  "card (\<Union>p\<in>set [example_post ''news'' ''The Game is SO GOOD!!'' 100 0]. post_keywords p) \<le> 30
   \<and> ''game'' \<in> post_keywords (example_post ''news'' ''The Game is SO GOOD!!'' 100 0)
   \<and> ''game'' \<in> keyword ` set (analyzeTrendingKeywords
                                     [example_post ''news'' ''The Game is SO GOOD!!'' 100 0] 0)"
proof -
  have h1: "card (\<Union>p\<in>set [example_post ''news'' ''The Game is SO GOOD!!'' 100 0]. post_keywords p) \<le> 30"
    by code_simp
  have h2: "''game'' \<in> post_keywords (example_post ''news'' ''The Game is SO GOOD!!'' 100 0)"
    by code_simp
  from analyzeTrendingKeywords_threshold_zero [OF h1 _ h2] h1 h2 show ?thesis by simp
qed

text \<open>
  C4 as stated fails: a post whose title has 31 different keywords loses the last one to
  the cap of 30.
\<close>

theorem analyzeTrendingKeywords_cap_counterexample:
  "''kwbe'' \<in> post_keywords (example_post ''news'' many_keywords 1 0)
   \<and> ''kwbe'' \<notin> keyword ` set (analyzeTrendingKeywords [example_post ''news'' many_keywords 1 0] 0)"
  by code_simp

section \<open>The values of the frequency map\<close>

text \<open>
  C9 says that every value of the map returned by extractKeywords is a strictly positive
  integer.  The code breaks this at the text \<open>constructor\<close>: the fresh object inherits
  \<open>constructor\<close> from \<open>Object.prototype\<close>, the read \<open>frequency[word] || 0\<close> gives that
  function instead of 0, and the value stored is a string.
\<close>

theorem extractKeywords_constructor:
  "extractKeywords ''constructor''
     = [(''constructor'', Str ''function Object() { [native code] }1'')]"
  by code_simp

text \<open>
  This is the only key that goes wrong: every other value of the map is a number that is
  at least 1, and a text without keywords gives the empty map.
\<close>

lemma extractKeywords_values_positive:
  assumes "(k, v) \<in> set (extractKeywords t)" and "k \<noteq> ''constructor''"
  shows "positive_count v"
proof -
  from assms(1) have "k \<in> fst ` set (extractKeywords t)" by force
  then have k: "k \<in> set (extract_words t)" and p: "k \<noteq> ''__proto__''"
    by (simp_all add: extractKeywords_keys)
  from k assms(2) p have "prototype_get k = Undefined" by (rule keyword_not_inherited)
  then have "counts_ok (extractKeywords t) k" by (rule extractKeywords_counts)
  with assms(1) show ?thesis by (simp add: counts_ok_def)
qed

lemma extractKeywords_no_words: "extract_words t = [] \<Longrightarrow> extractKeywords t = []"
  by (simp add: extractKeywords_def)

lemma extractKeywords_empty_text: "extractKeywords [] = []"
  by (simp add: extractKeywords_no_words extract_words_empty)

section \<open>Per-source summaries\<close>

lemma group_post_inv:
  assumes "distinct (map fst acc)" and "group_post p acc = Inr res"
  shows "distinct (map fst res)
         \<and> map_of res = (map_of acc)(subreddit p \<mapsto>
               (case map_of acc (subreddit p) of Some old \<Rightarrow> old @ [p] | None \<Rightarrow> [p]))"
proof (cases "map_of acc (subreddit p)")
  case None
  with assms(2) have "res = obj_put acc (subreddit p) [p]"
    by (simp add: group_post_def split: if_splits)
  with None assms(1) show ?thesis by (simp add: map_of_obj_put obj_put_distinct)
next
  case (Some old)
  with assms(2) have "res = obj_put acc (subreddit p) (old @ [p])"
    by (simp add: group_post_def)
  with Some assms(1) show ?thesis by (simp add: map_of_obj_put obj_put_distinct)
qed

lemma group_posts_inv:
  "distinct (map fst acc) \<Longrightarrow> group_posts ps acc = Inr res \<Longrightarrow>
     distinct (map fst res)
     \<and> (\<forall>name. map_of res name =
           (case map_of acc name of
              Some old \<Rightarrow> Some (old @ filter (\<lambda>p. subreddit p = name) ps)
            | None \<Rightarrow> if filter (\<lambda>p. subreddit p = name) ps = [] then None
                      else Some (filter (\<lambda>p. subreddit p = name) ps)))"
proof (induction ps arbitrary: acc)
  case Nil
  then show ?case by (auto split: option.splits)
next
  case (Cons p ps)
  from Cons.prems(2) obtain mid where mid: "group_post p acc = Inr mid"
    and rest: "group_posts ps mid = Inr res"
    by (auto split: sum.splits)
  from group_post_inv [OF Cons.prems(1) mid]
  have d: "distinct (map fst mid)"
    and m: "map_of mid = (map_of acc)(subreddit p \<mapsto>
               (case map_of acc (subreddit p) of Some old \<Rightarrow> old @ [p] | None \<Rightarrow> [p]))"
    by auto
  from Cons.IH [OF d rest] have dr: "distinct (map fst res)"
    and mr: "\<And>name. map_of res name =
           (case map_of mid name of
              Some old \<Rightarrow> Some (old @ filter (\<lambda>p. subreddit p = name) ps)
            | None \<Rightarrow> if filter (\<lambda>p. subreddit p = name) ps = [] then None
                      else Some (filter (\<lambda>p. subreddit p = name) ps))"
    by auto
  show ?case
  proof (intro conjI allI)
    show "distinct (map fst res)" by (rule dr)
  next
    fix name
    show "map_of res name =
           (case map_of acc name of
              Some old \<Rightarrow> Some (old @ filter (\<lambda>q. subreddit q = name) (p # ps))
            | None \<Rightarrow> if filter (\<lambda>q. subreddit q = name) (p # ps) = [] then None
                      else Some (filter (\<lambda>q. subreddit q = name) (p # ps)))"
      unfolding mr [of name] m by (auto split: option.splits)
  qed
qed

lemma fold_summarize_subset:
  "set (fold (\<lambda>(name, subPosts) trends. obj_put trends name (summarize subPosts)) es acc)
     \<subseteq> set acc \<union> (\<lambda>(name, subPosts). (name, summarize subPosts)) ` set es"
proof (induction es arbitrary: acc)
  case Nil
  then show ?case by simp
next
  case (Cons e es)
  obtain name sub where e: "e = (name, sub)" by (cases e)
  have "set (obj_put acc name (summarize sub)) \<subseteq> insert (name, summarize sub) (set acc)"
    by (rule obj_put_subset)
  with Cons.IH [of "obj_put acc name (summarize sub)"] e show ?case by auto
qed

lemma fold_score_sum: "fold (\<lambda>p sum. sum + score p) ps s = s + sum_list (map score ps)"
  by (induction ps arbitrary: s) simp_all

text \<open>
  C10: for every list of posts, every per-source summary that getTrendsBySubreddit returns
  is built from a nonempty group of posts, namely all the posts of that source in their
  order; its \<open>postCount\<close> is the size of that group and is at least 1, so the division
  that computes \<open>avgScore\<close> is never a division by zero.
\<close>

theorem getTrendsBySubreddit_nonempty_groups:
  assumes "getTrendsBySubreddit posts = Inr trends" and "(name, t) \<in> set trends"
  shows "(let subPosts = filter (\<lambda>p. subreddit p = name) posts
          in subPosts \<noteq> [] \<and> t = summarize subPosts
             \<and> postCount t = length subPosts \<and> postCount t \<ge> 1
             \<and> avgScore t = real_of_int (sum_list (map score subPosts)) / real (postCount t))"
proof -
  from assms(1) obtain bySubreddit where g: "group_posts posts [] = Inr bySubreddit"
    and tr: "trends = fold (\<lambda>(name, subPosts) trends. obj_put trends name (summarize subPosts))
                        (obj_entries bySubreddit) []"
    by (auto simp: getTrendsBySubreddit_def split: sum.splits)
  from assms(2) tr fold_summarize_subset [of "obj_entries bySubreddit" "[]"]
  obtain sub where sub: "(name, sub) \<in> set bySubreddit" and t: "t = summarize sub"
    by (auto simp: set_obj_entries)
  from group_posts_inv [OF _ g] have d: "distinct (map fst bySubreddit)"
    and m: "map_of bySubreddit name =
              (if filter (\<lambda>p. subreddit p = name) posts = [] then None
               else Some (filter (\<lambda>p. subreddit p = name) posts))"
    by auto
  from d sub have "map_of bySubreddit name = Some sub" by simp
  with m have ne: "filter (\<lambda>p. subreddit p = name) posts \<noteq> []"
    and eq: "sub = filter (\<lambda>p. subreddit p = name) posts"
    by (auto split: if_splits)
  from ne have "length (filter (\<lambda>p. subreddit p = name) posts) \<ge> 1"
    by (simp add: Suc_le_eq)
  with ne eq t show ?thesis
    by (simp add: Let_def summarize_def fold_score_sum)
qed

theorem getTrendsBySubreddit_nonempty_groups_witness:
  "getTrendsBySubreddit two_posts = Inr [(''news'', summarize two_posts)]
   \<and> postCount (summarize two_posts) = 2
   \<and> 1 \<le> postCount (summarize two_posts)
   \<and> avgScore (summarize two_posts) = 75"
proof -
  have h: "getTrendsBySubreddit two_posts = Inr [(''news'', summarize two_posts)]"
    by (simp add: getTrendsBySubreddit_def two_posts_def group_post_def example_post_def
        obj_entries_def is_array_index_def prototype_get_def object_prototype_functions_def
        is_digit_char_def)
  have f: "filter (\<lambda>p. subreddit p = ''news'') two_posts = two_posts"
    by (simp add: two_posts_def example_post_def)
  have s: "sum_list (map score two_posts) = 150"
    by (simp add: two_posts_def example_post_def)
  have l: "length two_posts = 2"
    by (simp add: two_posts_def)
  from getTrendsBySubreddit_nonempty_groups [OF h, of "''news''" "summarize two_posts"] h
  show ?thesis
    unfolding Let_def f s l by simp
qed

text \<open>
  No summary is returned at all when a source bears the name of a member of
  \<open>Object.prototype\<close>: grouping throws.
\<close>

lemma getTrendsBySubreddit_constructor:
  "getTrendsBySubreddit [example_post ''constructor'' ''The Game is SO GOOD!!'' 100 0]
     = Inl (TypeError ''bySubreddit[post.subreddit].push is not a function'')"
  by code_simp

section \<open>Supporting lemmas for the client\<close>

subsection \<open>One request\<close>

lemma enforceRateLimit_None:
  assumes "rateLimitRemaining c = None"
  shows "rateLimitRemaining (enforceRateLimit c) = None"
    and "sleeps (enforceRateLimit c) = sleeps c"
  using assms by (simp_all add: enforceRateLimit_def Let_def console_def sleeps_def)

lemma enforceRateLimit_calls: "calls (enforceRateLimit c) = calls c"
  by (simp add: enforceRateLimit_def Let_def console_def sleep_def split: option.splits)

lemma enforceRateLimit_maxRetries: "maxRetries (enforceRateLimit c) = maxRetries c"
  by (simp add: enforceRateLimit_def Let_def console_def sleep_def split: option.splits)

lemma enforceRateLimit_events: "set (events c) \<subseteq> set (events (enforceRateLimit c))"
  by (auto simp: enforceRateLimit_def Let_def console_def sleep_def split: option.splits)

lemma hot_request_fst: "fst (hot_request reddit name limit c) = reddit (calls c) name limit"
  by (simp add: hot_request_def Let_def enforceRateLimit_calls)

lemma hot_request_snd:
  assumes "rateLimitRemaining c = None"
  shows "rateLimitRemaining (snd (hot_request reddit name limit c)) = None"
    and "sleeps (snd (hot_request reddit name limit c)) = sleeps c"
  using enforceRateLimit_None [OF assms]
  by (simp_all add: hot_request_def Let_def sleeps_def)

lemma hot_request_calls: "calls (snd (hot_request reddit name limit c)) = calls c + 1"
  by (simp add: hot_request_def Let_def enforceRateLimit_calls)

lemma hot_request_maxRetries:
  "maxRetries (snd (hot_request reddit name limit c)) = maxRetries c"
  by (simp add: hot_request_def Let_def enforceRateLimit_maxRetries)

lemma hot_request_events:
  "set (events c) \<subseteq> set (events (snd (hot_request reddit name limit c)))"
  using enforceRateLimit_events [of c] by (auto simp: hot_request_def Let_def)

lemma upstream_call_hot_request:
  "upstream_call (hot_request reddit name limit) (\<lambda>k. reddit k name limit)"
  unfolding upstream_call_def
  by (simp add: hot_request_fst hot_request_snd hot_request_calls)

lemma sleeps_sleep: "sleeps (sleep ms c) = sleeps c @ [ms]"
  by (simp add: sleeps_def sleep_def)

lemma sleeps_console: "sleeps (console l c) = sleeps c"
  by (simp add: sleeps_def console_def)

lemma calls_sleep_console: "calls (sleep ms c) = calls c" "calls (console l c) = calls c"
  by (simp_all add: sleep_def console_def)

lemma remaining_sleep_console:
  "rateLimitRemaining (sleep ms c) = rateLimitRemaining c"
  "rateLimitRemaining (console l c) = rateLimitRemaining c"
  by (simp_all add: sleep_def console_def)

lemma maxRetries_sleep_console:
  "maxRetries (sleep ms c) = maxRetries c" "maxRetries (console l c) = maxRetries c"
  by (simp_all add: sleep_def console_def)

lemma events_sleep_console:
  "set (events (sleep ms c)) = insert (Sleep ms) (set (events c))"
  "set (events (console l c)) = insert (Log l) (set (events c))"
  by (simp_all add: sleep_def console_def)

subsection \<open>Retrying\<close>

lemma retry_success:
  assumes "fn c = (Inr v, c1)"
  shows "retryWithBackoff fn retries delay c = (Inr v, c1)"
  using assms by (simp add: retryWithBackoff.simps)

lemma retry_rate_limit_step:
  assumes "fn c = (Inl e, c1)" and "is_rate_limit e" and "retries > 0"
  shows "retryWithBackoff fn retries delay c
         = retryWithBackoff fn (retries - 1) (delay * 2)
             (sleep (waitTime e delay) (console (RateLimitHit (waitTime e delay) retries) c1))"
  using assms by (subst retryWithBackoff.simps) (simp add: Let_def)

lemma retry_rate_limit_exhausted:
  assumes "fn c = (Inl e, c1)" and "is_rate_limit e" and "\<not> retries > 0"
  shows "retryWithBackoff fn retries delay c = (Inl rate_limit_exceeded, c1)"
  using assms by (subst retryWithBackoff.simps) simp

lemma retry_not_retried:
  assumes "fn c = (Inl e, c1)" and "\<not> is_rate_limit e" and "\<not> is_server_error e"
  shows "retryWithBackoff fn retries delay c = (Inl e, c1)"
  using assms by (subst retryWithBackoff.simps) simp

text \<open>
  What every step of a run preserves, the run preserves: \<open>R\<close> relates a state of the
  client to a later one.
\<close>

lemma retry_preserves:
  assumes fn: "\<And>c. R c (snd (fn c))"
      and sl: "\<And>c ms. R c (sleep ms c)"
      and rl: "\<And>c w r. R c (console (RateLimitHit w r) c)"
      and se: "\<And>c w r. R c (console (ServerErrorRetry w r) c)"
      and trans: "\<And>a b c. R a b \<Longrightarrow> R b c \<Longrightarrow> R a c"
  shows "R c (snd (retryWithBackoff fn retries delay c))"
proof (induction "nat retries" arbitrary: retries delay c)
  case 0
  then have r: "\<not> retries > 0" by simp
  obtain res c1 where f: "fn c = (res, c1)" by (cases "fn c")
  with fn [of c] have "R c c1" by simp
  with f r show ?case
    by (subst retryWithBackoff.simps) (simp split: sum.splits)
next
  case (Suc n)
  from Suc(2) have n: "n = nat (retries - 1)" by simp
  obtain res c1 where f: "fn c = (res, c1)" by (cases "fn c")
  with fn [of c] have c1: "R c c1" by simp
  have step: "R c (snd (retryWithBackoff fn (retries - 1) d' (sleep ms (console l c1))))"
    if "R c1 (console l c1)" for d' ms l
  proof -
    from c1 that have "R c (console l c1)" by (rule trans)
    then have "R c (sleep ms (console l c1))" using sl by (rule trans)
    then show ?thesis using Suc(1) [OF n] by (rule trans)
  qed
  show ?case
    using f c1 step [OF rl] step [OF se]
    by (subst retryWithBackoff.simps) (simp add: Let_def split: sum.splits)
qed

lemma retry_maxRetries:
  assumes "\<And>c. maxRetries (snd (fn c)) = maxRetries c"
  shows "maxRetries (snd (retryWithBackoff fn retries delay c)) = maxRetries c"
  by (rule retry_preserves [where R = "\<lambda>a b. maxRetries b = maxRetries a"])
     (simp_all add: assms maxRetries_sleep_console)

lemma retry_events:
  assumes "\<And>c. set (events c) \<subseteq> set (events (snd (fn c)))"
  shows "set (events c) \<subseteq> set (events (snd (retryWithBackoff fn retries delay c)))"
  by (rule retry_preserves [where R = "\<lambda>a b. set (events a) \<subseteq> set (events b)"])
     (use assms in \<open>auto simp: events_sleep_console\<close>)

lemma retry_chain:
  assumes up: "upstream_call fn up" and rem: "rateLimitRemaining c = None"
      and errs: "\<forall>i<n. up (calls c + i) = Inl (errs i) \<and> is_rate_limit (errs i)"
      and n: "int n \<le> retries"
  shows "\<exists>c'. retryWithBackoff fn retries delay c
               = retryWithBackoff fn (retries - int n) (delay * 2 ^ n) c'
             \<and> calls c' = calls c + n \<and> rateLimitRemaining c' = None
             \<and> sleeps c' = sleeps c @ map (\<lambda>i. waitTime (errs i) (delay * 2 ^ i)) [0..<n]"
  using errs n
proof (induction n)
  case 0
  show ?case using rem by (intro exI [of _ c]) simp
next
  case (Suc n)
  from Suc.prems have "\<forall>i<n. up (calls c + i) = Inl (errs i) \<and> is_rate_limit (errs i)"
    and "int n \<le> retries" by auto
  from Suc.IH [OF this] obtain c' where
    eq: "retryWithBackoff fn retries delay c
               = retryWithBackoff fn (retries - int n) (delay * 2 ^ n) c'"
    and calls: "calls c' = calls c + n" and rem': "rateLimitRemaining c' = None"
    and sl: "sleeps c' = sleeps c @ map (\<lambda>i. waitTime (errs i) (delay * 2 ^ i)) [0..<n]"
    by blast
  let ?c1 = "snd (fn c')"
  let ?w = "waitTime (errs n) (delay * 2 ^ n)"
  let ?c2 = "sleep ?w (console (RateLimitHit ?w (retries - int n)) ?c1)"
  from up rem' have u: "fst (fn c') = up (calls c')" "calls ?c1 = calls c' + 1"
    "sleeps ?c1 = sleeps c'" "rateLimitRemaining ?c1 = None"
    by (simp_all add: upstream_call_def)
  from Suc.prems(1) have e: "is_rate_limit (errs n)"
    and r: "up (calls c + n) = Inl (errs n)" by auto
  have f: "fn c' = (Inl (errs n), ?c1)"
    using u(1) r calls by (cases "fn c'") simp
  from Suc.prems(2) have pos: "retries - int n > 0" by simp
  have step: "retryWithBackoff fn (retries - int n) (delay * 2 ^ n) c'
      = retryWithBackoff fn (retries - int (Suc n)) (delay * 2 ^ Suc n) ?c2"
    unfolding retry_rate_limit_step [where fn = fn and c = c', OF f e pos]
    by (simp add: algebra_simps)
  show ?case
    using eq step u calls sl
    by (intro exI [of _ ?c2])
       (simp add: sleeps_sleep sleeps_console calls_sleep_console remaining_sleep_console)
qed

lemma retry_sleeps_extend:
  assumes up: "upstream_call fn up"
  shows "rateLimitRemaining c = None
     \<Longrightarrow> \<exists>rest. sleeps (snd (retryWithBackoff fn retries delay c)) = sleeps c @ rest"
proof (induction "nat retries" arbitrary: retries delay c)
  case 0
  then have r: "\<not> retries > 0" by simp
  from up 0(2) have "sleeps (snd (fn c)) = sleeps c" by (simp add: upstream_call_def)
  moreover obtain res c1 where f: "fn c = (res, c1)" by (cases "fn c")
  ultimately have "sleeps c1 = sleeps c" by simp
  with f r show ?case
    by (subst retryWithBackoff.simps) (simp split: sum.splits)
next
  case (Suc n)
  from Suc(2) have n: "n = nat (retries - 1)" by simp
  from up Suc(3) have "sleeps (snd (fn c)) = sleeps c" "rateLimitRemaining (snd (fn c)) = None"
    by (simp_all add: upstream_call_def)
  moreover obtain res c1 where f: "fn c = (res, c1)" by (cases "fn c")
  ultimately have c1: "sleeps c1 = sleeps c" "rateLimitRemaining c1 = None" by simp_all
  have step: "\<exists>rest. sleeps (snd (retryWithBackoff fn (retries - 1) d' (sleep ms (console l c1))))
                = sleeps c @ rest" for d' ms l
  proof -
    have "rateLimitRemaining (sleep ms (console l c1)) = None"
      using c1(2) by (simp add: remaining_sleep_console)
    from Suc(1) [OF n this, of d'] obtain rest where
      "sleeps (snd (retryWithBackoff fn (retries - 1) d' (sleep ms (console l c1))))
         = sleeps (sleep ms (console l c1)) @ rest" by blast
    then show ?thesis using c1(1) by (simp add: sleeps_sleep sleeps_console)
  qed
  show ?case
    using f c1 step
    by (subst retryWithBackoff.simps) (simp add: Let_def split: sum.splits)
qed

lemma retry_waits_prefix:
  assumes up: "upstream_call fn up" and rem: "rateLimitRemaining c = None"
      and errs: "\<forall>i<n. up (calls c + i) = Inl (errs i) \<and> is_rate_limit (errs i)"
      and n: "int n \<le> retries"
  shows "take (length (sleeps c) + n) (sleeps (snd (retryWithBackoff fn retries delay c)))
           = sleeps c @ map (\<lambda>i. waitTime (errs i) (delay * 2 ^ i)) [0..<n]"
proof -
  from retry_chain [where fn = fn and up = up and c = c and n = n and errs = errs
      and retries = retries and delay = delay, OF up rem errs n]
  obtain c' where eq: "retryWithBackoff fn retries delay c
               = retryWithBackoff fn (retries - int n) (delay * 2 ^ n) c'"
    and rem': "rateLimitRemaining c' = None"
    and sl: "sleeps c' = sleeps c @ map (\<lambda>i. waitTime (errs i) (delay * 2 ^ i)) [0..<n]"
    by blast
  from retry_sleeps_extend [OF up rem', of "retries - int n" "delay * 2 ^ n"]
  obtain rest where "sleeps (snd (retryWithBackoff fn retries delay c)) = sleeps c' @ rest"
    unfolding eq by blast
  then show ?thesis using sl by simp
qed

lemma retry_then_success:
  assumes up: "upstream_call fn up" and rem: "rateLimitRemaining c = None"
      and errs: "\<forall>i<n. up (calls c + i) = Inl (errs i) \<and> is_rate_limit (errs i)"
      and n: "int n \<le> retries"
      and ok: "up (calls c + n) = Inr v"
  shows "fst (retryWithBackoff fn retries delay c) = Inr v"
    and "sleeps (snd (retryWithBackoff fn retries delay c))
           = sleeps c @ map (\<lambda>i. waitTime (errs i) (delay * 2 ^ i)) [0..<n]"
    and "calls (snd (retryWithBackoff fn retries delay c)) = calls c + n + 1"
    and "rateLimitRemaining (snd (retryWithBackoff fn retries delay c)) = None"
proof -
  from retry_chain [where fn = fn and up = up and c = c and n = n and errs = errs
      and retries = retries and delay = delay, OF up rem errs n]
  obtain c' where eq: "retryWithBackoff fn retries delay c
               = retryWithBackoff fn (retries - int n) (delay * 2 ^ n) c'"
    and calls: "calls c' = calls c + n" and rem': "rateLimitRemaining c' = None"
    and sl: "sleeps c' = sleeps c @ map (\<lambda>i. waitTime (errs i) (delay * 2 ^ i)) [0..<n]"
    by blast
  from up rem' have u: "fst (fn c') = up (calls c')" "calls (snd (fn c')) = calls c' + 1"
    "sleeps (snd (fn c')) = sleeps c'" "rateLimitRemaining (snd (fn c')) = None"
    by (simp_all add: upstream_call_def)
  from u(1) ok calls have f: "fn c' = (Inr v, snd (fn c'))" by (cases "fn c'") simp
  have run: "retryWithBackoff fn retries delay c = (Inr v, snd (fn c'))"
    unfolding eq using f by (rule retry_success)
  show "fst (retryWithBackoff fn retries delay c) = Inr v"
    and "sleeps (snd (retryWithBackoff fn retries delay c))
           = sleeps c @ map (\<lambda>i. waitTime (errs i) (delay * 2 ^ i)) [0..<n]"
    and "calls (snd (retryWithBackoff fn retries delay c)) = calls c + n + 1"
    and "rateLimitRemaining (snd (retryWithBackoff fn retries delay c)) = None"
    using run u calls sl by simp_all
qed

lemma retry_exhausted:
  assumes up: "upstream_call fn up" and rem: "rateLimitRemaining c = None"
      and errs: "\<forall>i\<le>nat retries. up (calls c + i) = Inl (errs i) \<and> is_rate_limit (errs i)"
  shows "fst (retryWithBackoff fn retries delay c) = Inl rate_limit_exceeded"
    and "sleeps (snd (retryWithBackoff fn retries delay c))
           = sleeps c @ map (\<lambda>i. waitTime (errs i) (delay * 2 ^ i)) [0..<nat retries]"
    and "calls (snd (retryWithBackoff fn retries delay c)) = calls c + nat retries + 1"
    and "rateLimitRemaining (snd (retryWithBackoff fn retries delay c)) = None"
proof -
  let ?n = "nat retries"
  have "\<exists>c'. retryWithBackoff fn retries delay c
               = retryWithBackoff fn (retries - int ?n) (delay * 2 ^ ?n) c'
             \<and> calls c' = calls c + ?n \<and> rateLimitRemaining c' = None
             \<and> sleeps c' = sleeps c @ map (\<lambda>i. waitTime (errs i) (delay * 2 ^ i)) [0..<?n]"
  proof (cases "retries \<ge> 0")
    case True
    then have n: "int ?n \<le> retries" by simp
    from errs have e: "\<forall>i<?n. up (calls c + i) = Inl (errs i) \<and> is_rate_limit (errs i)"
      by simp
    show ?thesis
      by (rule retry_chain [where fn = fn and up = up and c = c and n = ?n and errs = errs
            and retries = retries and delay = delay, OF up rem e n])
  next
    case False
    then show ?thesis using rem by (intro exI [of _ c]) simp
  qed
  then obtain c' where eq: "retryWithBackoff fn retries delay c
               = retryWithBackoff fn (retries - int ?n) (delay * 2 ^ ?n) c'"
    and calls: "calls c' = calls c + ?n" and rem': "rateLimitRemaining c' = None"
    and sl: "sleeps c' = sleeps c @ map (\<lambda>i. waitTime (errs i) (delay * 2 ^ i)) [0..<?n]"
    by blast
  from up rem' have u: "fst (fn c') = up (calls c')" "calls (snd (fn c')) = calls c' + 1"
    "sleeps (snd (fn c')) = sleeps c'" "rateLimitRemaining (snd (fn c')) = None"
    by (simp_all add: upstream_call_def)
  from errs have last: "up (calls c + ?n) = Inl (errs ?n)" "is_rate_limit (errs ?n)" by simp_all
  from u(1) last(1) calls have f: "fn c' = (Inl (errs ?n), snd (fn c'))"
    by (cases "fn c'") simp
  have none: "\<not> retries - int ?n > 0" by simp
  have run: "retryWithBackoff fn retries delay c = (Inl rate_limit_exceeded, snd (fn c'))"
    unfolding eq using f last(2) none by (rule retry_rate_limit_exhausted)
  show "fst (retryWithBackoff fn retries delay c) = Inl rate_limit_exceeded"
    and "sleeps (snd (retryWithBackoff fn retries delay c))
           = sleeps c @ map (\<lambda>i. waitTime (errs i) (delay * 2 ^ i)) [0..<nat retries]"
    and "calls (snd (retryWithBackoff fn retries delay c)) = calls c + nat retries + 1"
    and "rateLimitRemaining (snd (retryWithBackoff fn retries delay c)) = None"
    using run u calls sl by simp_all
qed

lemma retry_error_origin:
  "fst (retryWithBackoff fn retries delay c) = Inl e
     \<Longrightarrow> e = rate_limit_exceeded \<or> (\<exists>c'. fst (fn c') = Inl e)"
proof (induction "nat retries" arbitrary: retries delay c)
  case 0
  then have r: "\<not> retries > 0" by simp
  obtain res c1 where f: "fn c = (res, c1)" by (cases "fn c")
  have here: "\<exists>c'. fst (fn c') = Inl e'" if "res = Inl e'" for e'
    using f that by (intro exI [of _ c]) simp
  from 0(2) f r here show ?case
    by (subst (asm) retryWithBackoff.simps) (auto split: sum.splits if_splits)
next
  case (Suc n)
  from Suc(2) have n: "n = nat (retries - 1)" by simp
  obtain res c1 where f: "fn c = (res, c1)" by (cases "fn c")
  have here: "\<exists>c'. fst (fn c') = Inl e'" if "res = Inl e'" for e'
    using f that by (intro exI [of _ c]) simp
  from Suc(3) f here Suc(1) [OF n] show ?case
    by (subst (asm) retryWithBackoff.simps)
       (auto simp: Let_def split: sum.splits if_splits)
qed

subsection \<open>The sources that have been started\<close>

lemma attempted_sleep: "attempted (sleep ms c) = attempted c"
  by (simp add: attempted_def sleep_def)

lemma attempted_console:
  "attempted (console l c)
     = attempted c @ (case l of FetchingHot limit name \<Rightarrow> [name] | _ \<Rightarrow> [])"
  by (cases l) (simp_all add: attempted_def console_def)

lemma attempted_enforceRateLimit: "attempted (enforceRateLimit c) = attempted c"
proof -
  have "attempted (c\<lparr>requestCount := requestCount c + 1\<rparr>) = attempted c"
    by (simp add: attempted_def)
  then show ?thesis
    by (simp add: enforceRateLimit_def Let_def attempted_sleep attempted_console
        split: option.splits)
qed

lemma attempted_hot_request: "attempted (snd (hot_request reddit name limit c)) = attempted c"
proof -
  have "attempted (snd (hot_request reddit name limit c)) = attempted (enforceRateLimit c)"
    by (simp add: hot_request_def Let_def attempted_def)
  then show ?thesis by (simp add: attempted_enforceRateLimit)
qed

lemma attempted_retry:
  assumes "\<And>c. attempted (snd (fn c)) = attempted c"
  shows "attempted (snd (retryWithBackoff fn retries delay c)) = attempted c"
  by (rule retry_preserves [where R = "\<lambda>a b. attempted b = attempted a"])
     (simp_all add: assms attempted_sleep attempted_console)

subsection \<open>One source of the loop\<close>

lemma fetch_source_ok:
  assumes rem: "rateLimitRemaining c = None"
      and ok: "reddit (calls c) name limit = Inr posts"
  shows "\<exists>c'. fetch_sources reddit subreddits limit (name # rest) allPosts c
               = fetch_sources reddit subreddits limit rest (allPosts @ map to_post posts) c'
             \<and> calls c' = calls c + 1 \<and> rateLimitRemaining c' = None
             \<and> maxRetries c' = maxRetries c \<and> set (events c) \<subseteq> set (events c')
             \<and> attempted c' = attempted c @ [name]"
proof -
  let ?c0 = "console (FetchingHot limit name) c"
  let ?c1 = "snd (hot_request reddit name limit ?c0)"
  let ?c' = "if int (indexOf subreddits name) < int (length subreddits) - 1
             then sleep 1000 ?c1 else ?c1"
  have rem0: "rateLimitRemaining ?c0 = None" using rem by (simp add: remaining_sleep_console)
  have "fst (hot_request reddit name limit ?c0) = Inr posts"
    using ok by (simp add: hot_request_fst calls_sleep_console)
  then have f: "hot_request reddit name limit ?c0 = (Inr posts, ?c1)"
    by (cases "hot_request reddit name limit ?c0") simp
  have run: "retryWithBackoff (hot_request reddit name limit) (maxRetries c) 2000 ?c0
               = (Inr posts, ?c1)"
    using f by (rule retry_success)
  have "fetch_sources reddit subreddits limit (name # rest) allPosts c
          = fetch_sources reddit subreddits limit rest (allPosts @ map to_post posts) ?c'"
    using run by simp
  moreover have "calls ?c' = calls c + 1"
    by (simp add: hot_request_calls calls_sleep_console)
  moreover have "rateLimitRemaining ?c' = None"
    using hot_request_snd(1) [OF rem0, of reddit name limit]
    by (simp add: remaining_sleep_console)
  moreover have "maxRetries ?c' = maxRetries c"
    by (simp add: hot_request_maxRetries maxRetries_sleep_console)
  moreover have "set (events c) \<subseteq> set (events ?c')"
    using hot_request_events [of ?c0 reddit name limit]
    by (auto simp: events_sleep_console)
  moreover have "attempted ?c' = attempted c @ [name]"
    by (simp add: attempted_sleep attempted_hot_request attempted_console)
  ultimately show ?thesis by blast
qed

lemma fetch_source_failed:
  assumes run: "retryWithBackoff (hot_request reddit name limit) (maxRetries c) 2000
                  (console (FetchingHot limit name) c) = (Inl e, c2)"
      and msg: "message e = Some m"
  shows "\<exists>c'. fetch_sources reddit subreddits limit (name # rest) allPosts c
               = fetch_sources reddit subreddits limit rest allPosts c'
             \<and> calls c' = calls c2 \<and> rateLimitRemaining c' = rateLimitRemaining c2
             \<and> maxRetries c' = maxRetries c2 \<and> set (events c2) \<subseteq> set (events c')
             \<and> Log (ErrorFetching name (Some m)) \<in> set (events c')
             \<and> attempted c' = attempted c2"
proof -
  let ?c3 = "console (ErrorFetching name (Some m)) c2"
  let ?c' = "if js_includes m ''rate limit'' then console ConsiderReducing ?c3 else ?c3"
  have "fetch_sources reddit subreddits limit (name # rest) allPosts c
          = fetch_sources reddit subreddits limit rest allPosts ?c'"
    using run msg by (simp add: Let_def)
  moreover have "calls ?c' = calls c2" "rateLimitRemaining ?c' = rateLimitRemaining c2"
    "maxRetries ?c' = maxRetries c2"
    by (simp_all add: calls_sleep_console remaining_sleep_console maxRetries_sleep_console)
  moreover have "set (events c2) \<subseteq> set (events ?c')"
    "Log (ErrorFetching name (Some m)) \<in> set (events ?c')"
    by (auto simp: events_sleep_console)
  moreover have "attempted ?c' = attempted c2"
    by (simp add: attempted_console)
  ultimately show ?thesis by blast
qed

lemma fetch_source_silent:
  assumes run: "retryWithBackoff (hot_request reddit name limit) (maxRetries c) 2000
                  (console (FetchingHot limit name) c) = (Inl e, c2)"
      and msg: "message e = None"
  shows "fetch_sources reddit subreddits limit (name # rest) allPosts c
           = (Inl includes_of_undefined, console (ErrorFetching name None) c2)"
  using run msg by simp

subsection \<open>Sources that are answered at the first attempt\<close>

lemma fetch_first_try:
  assumes "length ps = length names"
  shows "rateLimitRemaining c = None
     \<Longrightarrow> \<forall>j<length names. reddit (calls c + j) (names ! j) limit = Inr (ps ! j)
     \<Longrightarrow> \<exists>c'. fetch_sources reddit subreddits limit (names @ rest) allPosts c
               = fetch_sources reddit subreddits limit rest
                   (allPosts @ map to_post (concat ps)) c'
             \<and> calls c' = calls c + length names \<and> rateLimitRemaining c' = None
             \<and> maxRetries c' = maxRetries c \<and> set (events c) \<subseteq> set (events c')
             \<and> attempted c' = attempted c @ names"
  using assms
proof (induction ps names arbitrary: c allPosts rule: list_induct2)
  case Nil
  then show ?case by (intro exI [of _ c]) simp
next
  case (Cons p ps name names)
  from Cons.prems(2) have first: "reddit (calls c) name limit = Inr p" by auto
  from fetch_source_ok [where reddit = reddit and name = name and limit = limit and c = c
      and posts = p and subreddits = subreddits and rest = "names @ rest"
      and allPosts = allPosts, OF Cons.prems(1) first]
  obtain c1 where
    eq1: "fetch_sources reddit subreddits limit (name # names @ rest) allPosts c
            = fetch_sources reddit subreddits limit (names @ rest) (allPosts @ map to_post p) c1"
    and c1: "calls c1 = calls c + 1" "rateLimitRemaining c1 = None"
      "maxRetries c1 = maxRetries c" "set (events c) \<subseteq> set (events c1)"
      "attempted c1 = attempted c @ [name]"
    by blast
  have later: "\<forall>j<length names. reddit (calls c1 + j) (names ! j) limit = Inr (ps ! j)"
  proof (intro allI impI)
    fix j assume "j < length names"
    with Cons.prems(2) have "reddit (calls c + Suc j) ((name # names) ! Suc j) limit
                               = Inr ((p # ps) ! Suc j)"
      by (metis Suc_less_eq length_Cons)
    with c1(1) show "reddit (calls c1 + j) (names ! j) limit = Inr (ps ! j)" by simp
  qed
  from Cons.IH [where c = c1 and allPosts = "allPosts @ map to_post p", OF c1(2) later]
  obtain c' where
    eq2: "fetch_sources reddit subreddits limit (names @ rest) (allPosts @ map to_post p) c1
            = fetch_sources reddit subreddits limit rest
                ((allPosts @ map to_post p) @ map to_post (concat ps)) c'"
    and c': "calls c' = calls c1 + length names" "rateLimitRemaining c' = None"
      "maxRetries c' = maxRetries c1" "set (events c1) \<subseteq> set (events c')"
      "attempted c' = attempted c1 @ names"
    by blast
  show ?case
    using eq1 eq2 c1 c' by (intro exI [of _ c']) auto
qed

subsection \<open>A batch with one failing source\<close>

lemma fetch_batch_one_failure:
  assumes rem: "rateLimitRemaining c = None"
      and lb: "length pb = length before"
      and before: "\<forall>j<length before. reddit (calls c + j) (before ! j) limit = Inr (pb ! j)"
      and fail: "\<And>c1. calls c1 = calls c + length before \<Longrightarrow> rateLimitRemaining c1 = None
                  \<Longrightarrow> fst (retryWithBackoff (hot_request reddit name limit) (maxRetries c) 2000 c1)
                        = Inl e
                      \<and> calls (snd (retryWithBackoff (hot_request reddit name limit)
                                      (maxRetries c) 2000 c1))
                        = calls c + length before + k
                      \<and> rateLimitRemaining (snd (retryWithBackoff (hot_request reddit name limit)
                                                 (maxRetries c) 2000 c1)) = None"
      and msg: "message e = Some m"
      and la: "length pa = length after"
      and after: "\<forall>j<length after.
                    reddit (calls c + length before + k + j) (after ! j) limit = Inr (pa ! j)"
  shows "fst (fetchHotPosts reddit (before @ name # after) limit c)
           = Inr (map to_post (concat pb) @ map to_post (concat pa))"
    and "Log (ErrorFetching name (Some m))
           \<in> set (events (snd (fetchHotPosts reddit (before @ name # after) limit c)))"
    and "attempted (snd (fetchHotPosts reddit (before @ name # after) limit c))
           = attempted c @ before @ name # after"
    and "calls (snd (fetchHotPosts reddit (before @ name # after) limit c))
           = calls c + length before + k + length after"
proof -
  let ?subs = "before @ name # after"
  let ?fn = "hot_request reddit name limit"
  from fetch_first_try [where reddit = reddit and names = before and ps = pb and c = c
      and limit = limit and subreddits = ?subs and rest = "name # after" and allPosts = "[]",
      OF lb rem before]
  obtain cb where
    eq1: "fetch_sources reddit ?subs limit ?subs [] c
            = fetch_sources reddit ?subs limit (name # after) (map to_post (concat pb)) cb"
    and cb: "calls cb = calls c + length before" "rateLimitRemaining cb = None"
      "maxRetries cb = maxRetries c" "attempted cb = attempted c @ before"
    by auto
  let ?c1 = "console (FetchingHot limit name) cb"
  let ?run = "retryWithBackoff ?fn (maxRetries c) 2000 ?c1"
  have "calls ?c1 = calls c + length before" "rateLimitRemaining ?c1 = None"
    using cb by (simp_all add: calls_sleep_console remaining_sleep_console)
  from fail [OF this] have r: "fst ?run = Inl e"
    "calls (snd ?run) = calls c + length before + k" "rateLimitRemaining (snd ?run) = None"
    by simp_all
  obtain c2 where run: "?run = (Inl e, c2)" using r(1) by (cases ?run) simp
  with r have c2: "calls c2 = calls c + length before + k" "rateLimitRemaining c2 = None"
    by simp_all
  have "attempted (snd ?run) = attempted ?c1"
    by (rule attempted_retry) (rule attempted_hot_request)
  with run cb(4) have a2: "attempted c2 = attempted c @ before @ [name]"
    by (simp add: attempted_console)
  have run': "retryWithBackoff ?fn (maxRetries cb) 2000 ?c1 = (Inl e, c2)"
    using run cb(3) by simp
  from fetch_source_failed [OF run' msg, of ?subs after "map to_post (concat pb)"]
  obtain c3 where
    eq2: "fetch_sources reddit ?subs limit (name # after) (map to_post (concat pb)) cb
            = fetch_sources reddit ?subs limit after (map to_post (concat pb)) c3"
    and c3: "calls c3 = calls c2" "rateLimitRemaining c3 = rateLimitRemaining c2"
      "Log (ErrorFetching name (Some m)) \<in> set (events c3)" "attempted c3 = attempted c2"
    by blast
  have rem3: "rateLimitRemaining c3 = None" using c3(2) c2(2) by simp
  have after3: "\<forall>j<length after. reddit (calls c3 + j) (after ! j) limit = Inr (pa ! j)"
    using after c3(1) c2(1) by simp
  from fetch_first_try [where reddit = reddit and names = after and ps = pa and c = c3
      and limit = limit and subreddits = ?subs and rest = "[]"
      and allPosts = "map to_post (concat pb)", OF la rem3 after3]
  obtain c4 where
    eq3: "fetch_sources reddit ?subs limit after (map to_post (concat pb)) c3
            = fetch_sources reddit ?subs limit [] 
                (map to_post (concat pb) @ map to_post (concat pa)) c4"
    and c4: "calls c4 = calls c3 + length after" "set (events c3) \<subseteq> set (events c4)"
      "attempted c4 = attempted c3 @ after"
    by auto
  have res: "fetchHotPosts reddit ?subs limit c
               = (Inr (map to_post (concat pb) @ map to_post (concat pa)), c4)"
    unfolding fetchHotPosts_def eq1 eq2 eq3 by simp
  show "fst (fetchHotPosts reddit ?subs limit c)
           = Inr (map to_post (concat pb) @ map to_post (concat pa))"
    and "Log (ErrorFetching name (Some m)) \<in> set (events (snd (fetchHotPosts reddit ?subs limit c)))"
    and "attempted (snd (fetchHotPosts reddit ?subs limit c)) = attempted c @ before @ name # after"
    and "calls (snd (fetchHotPosts reddit ?subs limit c))
           = calls c + length before + k + length after"
    using res c4 c3 c2 a2 by auto
qed

lemma fetch_batch_silent_failure:
  assumes rem: "rateLimitRemaining c = None"
      and lb: "length pb = length before"
      and before: "\<forall>j<length before. reddit (calls c + j) (before ! j) limit = Inr (pb ! j)"
      and fail: "reddit (calls c + length before) name limit = Inl e"
      and kind: "\<not> is_rate_limit e" "\<not> is_server_error e"
      and msg: "message e = None"
  shows "fst (fetchHotPosts reddit (before @ name # after) limit c) = Inl includes_of_undefined"
    and "attempted (snd (fetchHotPosts reddit (before @ name # after) limit c))
           = attempted c @ before @ [name]"
    and "calls (snd (fetchHotPosts reddit (before @ name # after) limit c))
           = calls c + length before + 1"
proof -
  let ?subs = "before @ name # after"
  let ?fn = "hot_request reddit name limit"
  from fetch_first_try [where reddit = reddit and names = before and ps = pb and c = c
      and limit = limit and subreddits = ?subs and rest = "name # after" and allPosts = "[]",
      OF lb rem before]
  obtain cb where
    eq1: "fetch_sources reddit ?subs limit ?subs [] c
            = fetch_sources reddit ?subs limit (name # after) (map to_post (concat pb)) cb"
    and cb: "calls cb = calls c + length before" "attempted cb = attempted c @ before"
    by auto
  let ?c1 = "console (FetchingHot limit name) cb"
  let ?c2 = "snd (?fn ?c1)"
  have "fst (?fn ?c1) = Inl e"
    using fail cb(1) by (simp add: hot_request_fst calls_sleep_console)
  then have f: "?fn ?c1 = (Inl e, ?c2)" by (cases "?fn ?c1") simp
  have run: "retryWithBackoff ?fn (maxRetries cb) 2000 ?c1 = (Inl e, ?c2)"
    using f kind by (rule retry_not_retried)
  have res: "fetchHotPosts reddit ?subs limit c
               = (Inl includes_of_undefined, console (ErrorFetching name None) ?c2)"
    unfolding fetchHotPosts_def eq1 using run msg by (rule fetch_source_silent)
  show "fst (fetchHotPosts reddit ?subs limit c) = Inl includes_of_undefined"
    and "attempted (snd (fetchHotPosts reddit ?subs limit c)) = attempted c @ before @ [name]"
    and "calls (snd (fetchHotPosts reddit ?subs limit c)) = calls c + length before + 1"
    using res cb
    by (simp_all add: attempted_console attempted_hot_request hot_request_calls
        calls_sleep_console)
qed

subsection \<open>Errors that carry a message never leave the loop\<close>

lemma fetch_sources_returns:
  assumes "\<And>k name e. reddit k name limit = Inl e \<Longrightarrow> message e \<noteq> None"
  shows "\<exists>posts. fst (fetch_sources reddit subreddits limit rest allPosts c) = Inr posts
             \<and> attempted (snd (fetch_sources reddit subreddits limit rest allPosts c))
                 = attempted c @ rest"
proof (induction rest arbitrary: allPosts c)
  case Nil
  then show ?case by simp
next
  case (Cons name rest)
  let ?c0 = "console (FetchingHot limit name) c"
  let ?run = "retryWithBackoff (hot_request reddit name limit) (maxRetries c) 2000 ?c0"
  obtain r c1 where run: "?run = (r, c1)" by (cases ?run)
  have "attempted (snd ?run) = attempted ?c0"
    by (rule attempted_retry) (rule attempted_hot_request)
  with run have a1: "attempted c1 = attempted c @ [name]" by (simp add: attempted_console)
  show ?case
  proof (cases r)
    case (Inr posts)
    with run a1 Cons.IH show ?thesis by (simp add: attempted_sleep)
  next
    case (Inl e)
    with run have "fst ?run = Inl e" by simp
    then have "e = rate_limit_exceeded \<or> (\<exists>c'. fst (hot_request reddit name limit c') = Inl e)"
      by (rule retry_error_origin)
    then have "message e \<noteq> None"
      using assms by (auto simp: hot_request_fst rate_limit_exceeded_def)
    then obtain m where m: "message e = Some m" by auto
    from run Inl have run': "?run = (Inl e, c1)" by simp
    from fetch_source_failed [OF run' m, of subreddits rest allPosts]
    obtain c' where "fetch_sources reddit subreddits limit (name # rest) allPosts c
               = fetch_sources reddit subreddits limit rest allPosts c'"
      and "attempted c' = attempted c1" by blast
    with a1 Cons.IH [of allPosts c'] show ?thesis by simp
  qed
qed

section \<open>Waiting after a rate-limit signal\<close>

text \<open>
  C2 (as the code has it): for every upstream call that fails with a rate-limit signal
  while retries remain, the retry layer waits exactly \<open>hint * 1000 + 1000\<close> milliseconds
  when the error carries a nonzero \<open>ratelimitRemaining\<close> hint, and exactly the current
  backoff delay otherwise; the backoff delay used for the next attempt is double the
  current one.  Stated of a whole run: \<open>fn\<close> is any function that issues one upstream call.
  When its next \<open>n\<close> calls are rejected with the rate-limit errors \<open>errs 0, ..., errs (n - 1)\<close>
  and at least \<open>n\<close> retries are available, the waits of the run begin with exactly \<open>n\<close>
  waits, the one after rejection \<open>i\<close> being \<open>hint * 1000 + 1000\<close> for a nonzero hint of
  \<open>errs i\<close> and \<open>delay * 2 ^ i\<close> otherwise; and when the call after them succeeds with
  \<open>v\<close>, the run returns \<open>v\<close> after these waits and no other, and after \<open>n + 1\<close> upstream
  calls.  (The field \<open>rateLimitRemaining\<close> of the client is \<open>null\<close>, as the constructor
  leaves it; the code never assigns it.)
\<close>

theorem retryWithBackoff_rate_limit_waits:
  assumes "upstream_call fn up" and "rateLimitRemaining c = None"
      and "\<forall>i<n. up (calls c + i) = Inl (errs i) \<and> is_rate_limit (errs i)"
      and "int n \<le> retries"
  shows "take (length (sleeps c) + n) (sleeps (snd (retryWithBackoff fn retries delay c)))
           = sleeps c
             @ map (\<lambda>i. case ratelimitRemaining (errs i) of
                           Some r \<Rightarrow> if r \<noteq> 0 then real_of_int (r * 1000 + 1000)
                                     else delay * 2 ^ i
                         | None \<Rightarrow> delay * 2 ^ i) [0..<n]
         \<and> (up (calls c + n) = Inr v \<longrightarrow>
              fst (retryWithBackoff fn retries delay c) = Inr v
              \<and> sleeps (snd (retryWithBackoff fn retries delay c))
                  = sleeps c
                    @ map (\<lambda>i. case ratelimitRemaining (errs i) of
                                  Some r \<Rightarrow> if r \<noteq> 0 then real_of_int (r * 1000 + 1000)
                                            else delay * 2 ^ i
                                | None \<Rightarrow> delay * 2 ^ i) [0..<n]
              \<and> calls (snd (retryWithBackoff fn retries delay c)) = calls c + n + 1)"
  using retry_waits_prefix [where fn = fn and up = up and c = c and n = n and errs = errs
          and retries = retries and delay = delay, OF assms]
        retry_then_success(1-3) [where fn = fn and up = up and c = c and n = n and errs = errs
          and retries = retries and delay = delay and v = v, OF assms]
  unfolding waitTime_def by blast

theorem retryWithBackoff_rate_limit_waits_witness:
  "upstream_call (hot_request mixed_429 ''news'' 50) (\<lambda>k. mixed_429 k ''news'' 50)
   \<and> fst (retryWithBackoff (hot_request mixed_429 ''news'' 50) 3 2000 (new_client 3))
       = Inr [example_submission ''news'' ''hello'']
   \<and> sleeps (snd (retryWithBackoff (hot_request mixed_429 ''news'' 50) 3 2000 (new_client 3)))
       = [5000, 4000]
   \<and> calls (snd (retryWithBackoff (hot_request mixed_429 ''news'' 50) 3 2000 (new_client 3))) = 3"
proof -
  let ?errs = "\<lambda>i::nat. if i = 0 then too_many_requests (Some 4) else too_many_requests None"
  have h0: "upstream_call (hot_request mixed_429 ''news'' 50) (\<lambda>k. mixed_429 k ''news'' 50)"
    by (rule upstream_call_hot_request)
  have h1: "rateLimitRemaining (new_client 3) = None"
    by (simp add: new_client_def)
  have h2: "\<forall>i<2. mixed_429 (calls (new_client 3) + i) ''news'' 50 = Inl (?errs i)
               \<and> is_rate_limit (?errs i)"
    by (simp add: is_rate_limit_def too_many_requests_def mixed_429_def new_client_def)
  have h3: "int 2 \<le> 3" by simp
  have h4: "mixed_429 (calls (new_client 3) + 2) ''news'' 50
              = Inr [example_submission ''news'' ''hello'']"
    by (simp add: mixed_429_def new_client_def)
  have u: "[0..<2] = [0, Suc 0]" by (simp add: upt_rec)
  from retryWithBackoff_rate_limit_waits
         [where fn = "hot_request mixed_429 ''news'' 50" and up = "\<lambda>k. mixed_429 k ''news'' 50"
            and c = "new_client 3" and n = 2 and errs = ?errs and retries = 3 and delay = 2000
            and v = "[example_submission ''news'' ''hello'']", OF h0 h1 h2 h3]
       h0 h4
  show ?thesis
    by (simp add: u too_many_requests_def sleeps_def new_client_def)
qed

text \<open>
  C2 as stated fails: with a hint of 1 on both rejections, the second wait is 2000 ms,
  not the maximum of 2000 and the backoff delay 4000.
\<close>

theorem retryWithBackoff_wait_counterexample:
  "sleeps (snd (retryWithBackoff (hot_request twice_429 ''news'' 50) 3 2000 (new_client 3)))
     = [2000, 2000]
   \<and> [2000, 2000] \<noteq> [max (1 * 1000 + 1000) 2000, max (1 * 1000 + 1000) (2000 * 2 :: real)]"
proof -
  have h0: "upstream_call (hot_request twice_429 ''news'' 50) (\<lambda>k. twice_429 k ''news'' 50)"
    by (rule upstream_call_hot_request)
  have h1: "rateLimitRemaining (new_client 3) = None"
    by (simp add: new_client_def)
  have h2: "\<forall>i<2. twice_429 (calls (new_client 3) + i) ''news'' 50
                     = Inl (too_many_requests (Some 1))
               \<and> is_rate_limit (too_many_requests (Some 1))"
    by (simp add: is_rate_limit_def too_many_requests_def twice_429_def new_client_def)
  have h3: "int 2 \<le> 3" by simp
  have h4: "twice_429 (calls (new_client 3) + 2) ''news'' 50
              = Inr [example_submission ''news'' ''hello'']"
    by (simp add: twice_429_def new_client_def)
  have u: "[0..<2] = [0, Suc 0]" by (simp add: upt_rec)
  from retry_then_success(2)
         [where fn = "hot_request twice_429 ''news'' 50" and up = "\<lambda>k. twice_429 k ''news'' 50"
            and c = "new_client 3" and n = 2 and errs = "\<lambda>i. too_many_requests (Some 1)"
            and retries = 3 and delay = 2000
            and v = "[example_submission ''news'' ''hello'']", OF h0 h1 h2 h3 h4]
  show ?thesis
    by (simp add: u waitTime_def too_many_requests_def sleeps_def new_client_def)
qed

section \<open>A source that fails\<close>

text \<open>
  When every rejection carries a \<open>message\<close>, the loop over the sources returns normally and
  starts every source; a source that fails once with an error that is not retried
  contributes no post, and the posts of the sources before and after it are returned in
  the order of the list.  This is the case of the example with three sources.
\<close>

lemma fetchHotPosts_returns:
  assumes "\<And>k name e. reddit k name limit = Inl e \<Longrightarrow> message e \<noteq> None"
  shows "\<exists>posts. fst (fetchHotPosts reddit subreddits limit c) = Inr posts
             \<and> attempted (snd (fetchHotPosts reddit subreddits limit c))
                 = attempted c @ subreddits"
  unfolding fetchHotPosts_def using assms by (rule fetch_sources_returns)

lemma fetchHotPosts_isolates_error_with_message:
  assumes rem: "rateLimitRemaining c = None"
      and lb: "length pb = length before"
      and before: "\<forall>j<length before. reddit (calls c + j) (before ! j) limit = Inr (pb ! j)"
      and fail: "reddit (calls c + length before) name limit = Inl e"
      and kind: "\<not> is_rate_limit e" "\<not> is_server_error e"
      and msg: "message e = Some m"
      and la: "length pa = length after"
      and after: "\<forall>j<length after.
                    reddit (calls c + length before + 1 + j) (after ! j) limit = Inr (pa ! j)"
  shows "fst (fetchHotPosts reddit (before @ name # after) limit c)
           = Inr (map to_post (concat pb) @ map to_post (concat pa))"
proof -
  let ?fn = "hot_request reddit name limit"
  have run: "fst (retryWithBackoff ?fn (maxRetries c) 2000 c1) = Inl e
      \<and> calls (snd (retryWithBackoff ?fn (maxRetries c) 2000 c1)) = calls c + length before + 1
      \<and> rateLimitRemaining (snd (retryWithBackoff ?fn (maxRetries c) 2000 c1)) = None"
    if c1: "calls c1 = calls c + length before" and r1: "rateLimitRemaining c1 = None" for c1
  proof -
    have "fst (?fn c1) = Inl e" using fail c1 by (simp add: hot_request_fst)
    then have f: "?fn c1 = (Inl e, snd (?fn c1))" by (cases "?fn c1") simp
    have "retryWithBackoff ?fn (maxRetries c) 2000 c1 = (Inl e, snd (?fn c1))"
      using f kind by (rule retry_not_retried)
    then show ?thesis using c1 r1 by (simp add: hot_request_calls hot_request_snd)
  qed
  show ?thesis
    by (rule fetch_batch_one_failure(1) [where reddit = reddit and c = c and before = before
          and pb = pb and name = name and limit = limit and e = e and k = 1 and m = m
          and after = after and pa = pa, OF rem lb before run msg la after])
qed

lemma second_fails_isolated:
  "fst (fetchHotPosts second_fails [''one'', ''two'', ''three''] 50 (new_client 3))
     = Inr [to_post (example_submission ''one'' ''hello''),
            to_post (example_submission ''three'' ''hello'')]"
proof -
  have rem: "rateLimitRemaining (new_client 3) = None" by (simp add: new_client_def)
  have lb: "length [[example_submission ''one'' ''hello'']] = length [''one'']" by simp
  have before: "\<forall>j<length [''one''].
      second_fails (calls (new_client 3) + j) ([''one''] ! j) 50
        = Inr ([[example_submission ''one'' ''hello'']] ! j)"
    by (simp add: second_fails_def)
  have fail: "second_fails (calls (new_client 3) + length [''one'']) ''two'' 50 = Inl not_found"
    by (simp add: second_fails_def)
  have kind: "\<not> is_rate_limit not_found" "\<not> is_server_error not_found"
    by (simp_all add: is_rate_limit_def is_server_error_def not_found_def)
  have msg: "message not_found = Some ''Not Found''" by (simp add: not_found_def)
  have la: "length [[example_submission ''three'' ''hello'']] = length [''three'']" by simp
  have after: "\<forall>j<length [''three''].
      second_fails (calls (new_client 3) + length [''one''] + 1 + j) ([''three''] ! j) 50
        = Inr ([[example_submission ''three'' ''hello'']] ! j)"
    by (simp add: second_fails_def)
  from fetchHotPosts_isolates_error_with_message
         [where reddit = second_fails and c = "new_client 3" and before = "[''one'']"
            and pb = "[[example_submission ''one'' ''hello'']]" and name = "''two''"
            and limit = 50 and e = not_found and after = "[''three'']"
            and pa = "[[example_submission ''three'' ''hello'']]",
          OF rem lb before fail kind msg la after]
  show ?thesis by simp
qed

text \<open>
  C7 says that a failure while fetching one source does not abort the batch and that no
  exception escapes to the caller.  The code breaks this when the second of three sources
  is rejected with an object that has no \<open>message\<close> (here \<open>{statusCode: 404}\<close>): the catch
  block of \<open>fetchHotPosts\<close> evaluates \<open>error.message.includes('rate limit')\<close>, which
  throws a \<open>TypeError\<close> inside the handler; that exception leaves \<open>fetchHotPosts\<close>, the
  posts of the first source are lost with it, and the third source is never asked.
  (\<open>retryWithBackoff\<close> reads the same property as \<open>error.message?.includes\<close>.)
\<close>

theorem fetchHotPosts_message_less_error:
  "fst (fetchHotPosts second_silent [''one'', ''two'', ''three''] 50 (new_client 3))
     = Inl includes_of_undefined
   \<and> attempted (snd (fetchHotPosts second_silent [''one'', ''two'', ''three''] 50 (new_client 3)))
       = [''one'', ''two'']"
proof -
  have rem: "rateLimitRemaining (new_client 3) = None" by (simp add: new_client_def)
  have lb: "length [[example_submission ''one'' ''hello'']] = length [''one'']" by simp
  have before: "\<forall>j<length [''one''].
      second_silent (calls (new_client 3) + j) ([''one''] ! j) 50
        = Inr ([[example_submission ''one'' ''hello'']] ! j)"
    by (simp add: second_silent_def)
  have fail: "second_silent (calls (new_client 3) + length [''one'']) ''two'' 50 = Inl no_message"
    by (simp add: second_silent_def)
  have kind: "\<not> is_rate_limit no_message" "\<not> is_server_error no_message"
    by (simp_all add: is_rate_limit_def is_server_error_def no_message_def)
  have msg: "message no_message = None" by (simp add: no_message_def)
  have a: "attempted (new_client 3) = []" by (simp add: attempted_def new_client_def)
  from fetch_batch_silent_failure(1,2)
         [where reddit = second_silent and c = "new_client 3" and before = "[''one'']"
            and pb = "[[example_submission ''one'' ''hello'']]" and name = "''two''"
            and limit = 50 and e = no_message and after = "[''three'']",
          OF rem lb before fail kind msg] a
  show ?thesis by simp
qed

section \<open>Exhausted retries\<close>

lemma hot_request_exhausted:
  assumes errs: "\<forall>i\<le>nat retries. reddit (k + i) name limit = Inl (errs i)
                   \<and> is_rate_limit (errs i)"
      and c1: "calls c1 = k" and rem: "rateLimitRemaining c1 = None"
  shows "fst (retryWithBackoff (hot_request reddit name limit) retries delay c1)
           = Inl rate_limit_exceeded
         \<and> calls (snd (retryWithBackoff (hot_request reddit name limit) retries delay c1))
             = k + (nat retries + 1)
         \<and> rateLimitRemaining (snd (retryWithBackoff (hot_request reddit name limit)
                                      retries delay c1)) = None"
proof -
  have up: "upstream_call (hot_request reddit name limit) (\<lambda>k. reddit k name limit)"
    by (rule upstream_call_hot_request)
  have e: "\<forall>i\<le>nat retries. reddit (calls c1 + i) name limit = Inl (errs i)
             \<and> is_rate_limit (errs i)"
    using errs c1 by simp
  from retry_exhausted(1,3,4)
         [where fn = "hot_request reddit name limit" and up = "\<lambda>k. reddit k name limit"
            and c = c1 and retries = retries and errs = errs and delay = delay, OF up rem e]
       c1
  show ?thesis by simp
qed

text \<open>
  C8 (as the code has it): when every attempt of an upstream call fails with a rate-limit
  signal and the retry budget is exhausted, that is when the \<open>retries + 1\<close> calls that
  \<open>retryWithBackoff\<close> makes are all rejected with rate-limit errors, \<open>retryWithBackoff\<close>
  throws to its caller an error told apart by its message \<open>Rate limit exceeded. Max retries
  reached. Please try again later.\<close>, after exactly \<open>retries + 1\<close> upstream calls.
  \<open>fetchHotPosts\<close> does not pass it on: when the \<open>maxRetries + 1\<close> attempts for one source
  of the list are rejected in this way and every other source is answered at its first
  attempt, \<open>fetchHotPosts\<close> logs the message for that source, starts every source of the
  list, and returns to the caller orchestrating the batch the posts of the other sources,
  in the order of the list, and no error.
\<close>

theorem rate_limit_exhaustion_is_caught:
  "(upstream_call fn up \<and> rateLimitRemaining c = None
    \<and> (\<forall>i\<le>nat retries. up (calls c + i) = Inl (errs i) \<and> is_rate_limit (errs i))
    \<longrightarrow> fst (retryWithBackoff fn retries delay c) = Inl rate_limit_exceeded
        \<and> message rate_limit_exceeded
            = Some ''Rate limit exceeded. Max retries reached. Please try again later.''
        \<and> calls (snd (retryWithBackoff fn retries delay c)) = calls c + nat retries + 1)
   \<and> (rateLimitRemaining c = None
      \<and> length pb = length before
      \<and> (\<forall>j<length before. reddit (calls c + j) (before ! j) limit = Inr (pb ! j))
      \<and> (\<forall>i\<le>nat (maxRetries c).
            reddit (calls c + length before + i) name limit = Inl (errs i)
            \<and> is_rate_limit (errs i))
      \<and> length pa = length after
      \<and> (\<forall>j<length after.
            reddit (calls c + length before + (nat (maxRetries c) + 1) + j) (after ! j) limit
              = Inr (pa ! j))
      \<longrightarrow> fst (fetchHotPosts reddit (before @ name # after) limit c)
            = Inr (map to_post (concat pb) @ map to_post (concat pa))
          \<and> Log (ErrorFetching name (message rate_limit_exceeded))
              \<in> set (events (snd (fetchHotPosts reddit (before @ name # after) limit c)))
          \<and> attempted (snd (fetchHotPosts reddit (before @ name # after) limit c))
              = attempted c @ before @ name # after
          \<and> calls (snd (fetchHotPosts reddit (before @ name # after) limit c))
              = calls c + length before + (nat (maxRetries c) + 1) + length after)"
proof (intro conjI impI)
  assume h: "upstream_call fn up \<and> rateLimitRemaining c = None
    \<and> (\<forall>i\<le>nat retries. up (calls c + i) = Inl (errs i) \<and> is_rate_limit (errs i))"
  then have up: "upstream_call fn up" and rem: "rateLimitRemaining c = None"
    and e: "\<forall>i\<le>nat retries. up (calls c + i) = Inl (errs i) \<and> is_rate_limit (errs i)"
    by simp_all
  show "fst (retryWithBackoff fn retries delay c) = Inl rate_limit_exceeded"
    by (rule retry_exhausted(1) [where fn = fn and up = up and c = c and retries = retries
          and errs = errs and delay = delay, OF up rem e])
  show "calls (snd (retryWithBackoff fn retries delay c)) = calls c + nat retries + 1"
    by (rule retry_exhausted(3) [where fn = fn and up = up and c = c and retries = retries
          and errs = errs and delay = delay, OF up rem e])
next
  show "message rate_limit_exceeded
          = Some ''Rate limit exceeded. Max retries reached. Please try again later.''"
    by (simp add: rate_limit_exceeded_def)
next
  assume h: "rateLimitRemaining c = None
      \<and> length pb = length before
      \<and> (\<forall>j<length before. reddit (calls c + j) (before ! j) limit = Inr (pb ! j))
      \<and> (\<forall>i\<le>nat (maxRetries c).
            reddit (calls c + length before + i) name limit = Inl (errs i)
            \<and> is_rate_limit (errs i))
      \<and> length pa = length after
      \<and> (\<forall>j<length after.
            reddit (calls c + length before + (nat (maxRetries c) + 1) + j) (after ! j) limit
              = Inr (pa ! j))"
  then have rem: "rateLimitRemaining c = None" and lb: "length pb = length before"
    and before: "\<forall>j<length before. reddit (calls c + j) (before ! j) limit = Inr (pb ! j)"
    and e: "\<forall>i\<le>nat (maxRetries c).
            reddit (calls c + length before + i) name limit = Inl (errs i)
            \<and> is_rate_limit (errs i)"
    and la: "length pa = length after"
    and after: "\<forall>j<length after.
            reddit (calls c + length before + (nat (maxRetries c) + 1) + j) (after ! j) limit
              = Inr (pa ! j)"
    by simp_all
  have msg: "message rate_limit_exceeded
               = Some ''Rate limit exceeded. Max retries reached. Please try again later.''"
    by (simp add: rate_limit_exceeded_def)
  have run: "fst (retryWithBackoff (hot_request reddit name limit) (maxRetries c) 2000 c1)
               = Inl rate_limit_exceeded
      \<and> calls (snd (retryWithBackoff (hot_request reddit name limit) (maxRetries c) 2000 c1))
          = calls c + length before + (nat (maxRetries c) + 1)
      \<and> rateLimitRemaining (snd (retryWithBackoff (hot_request reddit name limit)
                                   (maxRetries c) 2000 c1)) = None"
    if "calls c1 = calls c + length before" and "rateLimitRemaining c1 = None" for c1
    by (rule hot_request_exhausted [where reddit = reddit and name = name and limit = limit
          and retries = "maxRetries c" and errs = errs and k = "calls c + length before"
          and ?c1.0 = c1 and delay = 2000, OF e that])
  note batch = fetch_batch_one_failure [where reddit = reddit and c = c and before = before
          and pb = pb and name = name and limit = limit and e = rate_limit_exceeded
          and k = "nat (maxRetries c) + 1"
          and m = "''Rate limit exceeded. Max retries reached. Please try again later.''"
          and after = after and pa = pa, OF rem lb before run msg la after]
  show "fst (fetchHotPosts reddit (before @ name # after) limit c)
            = Inr (map to_post (concat pb) @ map to_post (concat pa))"
    by (rule batch(1))
  show "Log (ErrorFetching name (message rate_limit_exceeded))
              \<in> set (events (snd (fetchHotPosts reddit (before @ name # after) limit c)))"
    using batch(2) msg by simp
  show "attempted (snd (fetchHotPosts reddit (before @ name # after) limit c))
              = attempted c @ before @ name # after"
    by (rule batch(3))
  show "calls (snd (fetchHotPosts reddit (before @ name # after) limit c))
              = calls c + length before + (nat (maxRetries c) + 1) + length after"
    by (rule batch(4))
qed

theorem rate_limit_exhaustion_is_caught_witness:
  "fst (retryWithBackoff (hot_request four_429 ''two'' 50) 3 2000 ((new_client 3)\<lparr>calls := 1\<rparr>))
     = Inl rate_limit_exceeded
   \<and> calls (snd (retryWithBackoff (hot_request four_429 ''two'' 50) 3 2000
                  ((new_client 3)\<lparr>calls := 1\<rparr>))) = 5
   \<and> fst (fetchHotPosts four_429 [''one'', ''two'', ''three''] 50 (new_client 3))
       = Inr [to_post (example_submission ''one'' ''hello''),
              to_post (example_submission ''three'' ''hello'')]
   \<and> Log (ErrorFetching ''two''
             (Some ''Rate limit exceeded. Max retries reached. Please try again later.''))
       \<in> set (events (snd (fetchHotPosts four_429 [''one'', ''two'', ''three''] 50
                              (new_client 3))))
   \<and> attempted (snd (fetchHotPosts four_429 [''one'', ''two'', ''three''] 50 (new_client 3)))
       = [''one'', ''two'', ''three'']
   \<and> calls (snd (fetchHotPosts four_429 [''one'', ''two'', ''three''] 50 (new_client 3))) = 6"
proof -
  let ?c = "new_client 3"
  let ?c1 = "(new_client 3)\<lparr>calls := 1\<rparr>"
  let ?errs = "\<lambda>i::nat. too_many_requests None"
  have rl: "is_rate_limit (too_many_requests None)"
    by (simp add: is_rate_limit_def too_many_requests_def)
  have cc: "calls ?c = 0" and mr: "maxRetries ?c = 3" and c1c: "calls ?c1 = 1"
    and rem: "rateLimitRemaining ?c = None" and rem1: "rateLimitRemaining ?c1 = None"
    by (simp_all add: new_client_def)
  have at: "attempted ?c = []" by (simp add: attempted_def new_client_def)
  have msg: "message rate_limit_exceeded
               = Some ''Rate limit exceeded. Max retries reached. Please try again later.''"
    by (simp add: rate_limit_exceeded_def)
  have up: "upstream_call (hot_request four_429 ''two'' 50) (\<lambda>k. four_429 k ''two'' 50)"
    by (rule upstream_call_hot_request)
  have e1: "\<forall>i\<le>nat 3. four_429 (calls ?c1 + i) ''two'' 50 = Inl (?errs i)
                    \<and> is_rate_limit (?errs i)"
    unfolding c1c using rl by (simp add: four_429_def)
  have b1: "\<forall>j<length [''one'']. four_429 (calls ?c + j) ([''one''] ! j) 50
             = Inr ([[example_submission ''one'' ''hello'']] ! j)"
    unfolding cc by (simp add: four_429_def)
  have b2: "\<forall>i\<le>nat (maxRetries ?c).
            four_429 (calls ?c + length [''one''] + i) ''two'' 50 = Inl (?errs i)
            \<and> is_rate_limit (?errs i)"
    unfolding cc mr using rl by (simp add: four_429_def)
  have b3: "\<forall>j<length [''three''].
            four_429 (calls ?c + length [''one''] + (nat (maxRetries ?c) + 1) + j)
              ([''three''] ! j) 50
              = Inr ([[example_submission ''three'' ''hello'']] ! j)"
    unfolding cc mr by (simp add: four_429_def)
  have a: "upstream_call (hot_request four_429 ''two'' 50) (\<lambda>k. four_429 k ''two'' 50)
             \<and> rateLimitRemaining ?c1 = None
             \<and> (\<forall>i\<le>nat 3. four_429 (calls ?c1 + i) ''two'' 50 = Inl (?errs i)
                    \<and> is_rate_limit (?errs i))"
    using up rem1 e1 by (intro conjI)
  have b: "rateLimitRemaining ?c = None
      \<and> length [[example_submission ''one'' ''hello'']] = length [''one'']
      \<and> (\<forall>j<length [''one'']. four_429 (calls ?c + j) ([''one''] ! j) 50
             = Inr ([[example_submission ''one'' ''hello'']] ! j))
      \<and> (\<forall>i\<le>nat (maxRetries ?c).
            four_429 (calls ?c + length [''one''] + i) ''two'' 50 = Inl (?errs i)
            \<and> is_rate_limit (?errs i))
      \<and> length [[example_submission ''three'' ''hello'']] = length [''three'']
      \<and> (\<forall>j<length [''three''].
            four_429 (calls ?c + length [''one''] + (nat (maxRetries ?c) + 1) + j)
              ([''three''] ! j) 50
              = Inr ([[example_submission ''three'' ''hello'']] ! j))"
    using rem b1 b2 b3 by (intro conjI) simp_all
  note thm1 = rate_limit_exhaustion_is_caught
         [where fn = "hot_request four_429 ''two'' 50" and up = "\<lambda>k. four_429 k ''two'' 50"
            and c = ?c1 and retries = 3 and errs = ?errs and delay = 2000, THEN conjunct1,
          rule_format, OF a]
  note thm2 = rate_limit_exhaustion_is_caught
         [where reddit = four_429 and c = ?c and before = "[''one'']"
            and pb = "[[example_submission ''one'' ''hello'']]" and name = "''two''"
            and limit = 50 and errs = ?errs and after = "[''three'']"
            and pa = "[[example_submission ''three'' ''hello'']]", THEN conjunct2,
          rule_format, OF b]
  from thm1 thm2 show ?thesis
    unfolding cc mr c1c at msg by simp
qed

text \<open>
  C8 as stated fails: with an upstream that rejects every call with status 429, the retry
  layer throws the rate-limit error, and \<open>fetchHotPosts\<close> returns the empty list of posts
  to its caller, the error being logged only.
\<close>

theorem rate_limit_swallowed_counterexample:
  "fst (retryWithBackoff (hot_request always_429 ''news'' 50) (maxRetries (new_client 3)) 2000
          (console (FetchingHot 50 ''news'') (new_client 3))) = Inl rate_limit_exceeded
   \<and> fst (fetchHotPosts always_429 [''news''] 50 (new_client 3)) = Inr []
   \<and> Log (ErrorFetching ''news''
             (Some ''Rate limit exceeded. Max retries reached. Please try again later.''))
       \<in> set (events (snd (fetchHotPosts always_429 [''news''] 50 (new_client 3))))"
proof -
  let ?c = "new_client 3"
  let ?errs = "\<lambda>i::nat. too_many_requests None"
  have rl: "is_rate_limit (too_many_requests None)"
    by (simp add: is_rate_limit_def too_many_requests_def)
  have e: "\<forall>i\<le>nat (maxRetries ?c). always_429 (calls ?c + length ([]::string list) + i) ''news'' 50
             = Inl (?errs i) \<and> is_rate_limit (?errs i)"
    using rl by (simp add: always_429_def)
  have msg: "message rate_limit_exceeded
               = Some ''Rate limit exceeded. Max retries reached. Please try again later.''"
    by (simp add: rate_limit_exceeded_def)
  have run: "fst (retryWithBackoff (hot_request always_429 ''news'' 50) (maxRetries ?c) 2000 c1)
               = Inl rate_limit_exceeded
      \<and> calls (snd (retryWithBackoff (hot_request always_429 ''news'' 50) (maxRetries ?c) 2000 c1))
          = calls ?c + length ([]::string list) + (nat (maxRetries ?c) + 1)
      \<and> rateLimitRemaining (snd (retryWithBackoff (hot_request always_429 ''news'' 50)
                                   (maxRetries ?c) 2000 c1)) = None"
    if "calls c1 = calls ?c + length ([]::string list)" and "rateLimitRemaining c1 = None" for c1
    by (rule hot_request_exhausted [where reddit = always_429 and name = "''news''"
          and limit = 50 and retries = "maxRetries ?c" and errs = ?errs
          and k = "calls ?c + length ([]::string list)" and ?c1.0 = c1 and delay = 2000,
          OF e that])
  have rem: "rateLimitRemaining ?c = None" by (simp add: new_client_def)
  have first: "fst (retryWithBackoff (hot_request always_429 ''news'' 50) (maxRetries ?c) 2000
          (console (FetchingHot 50 ''news'') ?c)) = Inl rate_limit_exceeded"
    using run [of "console (FetchingHot 50 ''news'') ?c"] rem
    by (simp add: calls_sleep_console remaining_sleep_console)
  have l0: "length ([]::submission list list) = length ([]::string list)" by simp
  have b0: "\<forall>j<length ([]::string list).
              always_429 (calls ?c + j) ([] ! j) 50 = Inr (([]::submission list list) ! j)"
    by simp
  have a0: "\<forall>j<length ([]::string list).
              always_429 (calls ?c + length ([]::string list) + (nat (maxRetries ?c) + 1) + j)
                ([] ! j) 50 = Inr (([]::submission list list) ! j)"
    by simp
  note batch = fetch_batch_one_failure(1,2)
         [where reddit = always_429 and c = ?c and before = "[]" and pb = "[]"
            and name = "''news''" and limit = 50 and e = rate_limit_exceeded
            and k = "nat (maxRetries ?c) + 1"
            and m = "''Rate limit exceeded. Max retries reached. Please try again later.''"
            and after = "[]" and pa = "[]", OF rem l0 b0 run msg l0 a0]
  have b1: "fst (fetchHotPosts always_429 [''news''] 50 ?c) = Inr []"
    using batch(1) by simp
  have b2: "Log (ErrorFetching ''news''
             (Some ''Rate limit exceeded. Max retries reached. Please try again later.''))
       \<in> set (events (snd (fetchHotPosts always_429 [''news''] 50 ?c)))"
    using batch(2) by simp
  from first b1 b2 show ?thesis by (intro conjI)
qed

section \<open>The order of the ranking\<close>

text \<open>
  On a map whose values are all numbers the comparator of \<open>getTopKeywords\<close> is a
  consistent one, and \<open>js_sort\<close> is the stable sort by decreasing count.  The maps that
  \<open>analyzeTrendingKeywords\<close> and \<open>analyzeCommentTrends\<close> rank are of this kind: the filter by
  frequency keeps numbers only.
\<close>

lemma insert_by_numeric:
  assumes "\<exists>n. snd x = Num n" and "\<forall>e\<in>set ys. \<exists>n. snd e = Num n"
  shows "insert_by count_desc x ys = insort_key (\<lambda>e. - the (to_number (snd e))) x ys"
  using assms by (induction ys) (auto simp: count_desc_def)

lemma js_sort_numeric:
  "\<forall>e\<in>set xs. \<exists>n. snd e = Num n
     \<Longrightarrow> js_sort count_desc xs = sort_key (\<lambda>e. - the (to_number (snd e))) xs"
proof (induction xs)
  case Nil
  then show ?case by (simp add: js_sort_def)
next
  case (Cons x xs)
  let ?f = "\<lambda>e. - the (to_number (snd e))"
  have ih: "js_sort count_desc xs = sort_key ?f xs" using Cons by simp
  have x: "\<exists>n. snd x = Num n" using Cons.prems by simp
  have rest: "\<forall>e\<in>set (sort_key ?f xs). \<exists>n. snd e = Num n" using Cons.prems by simp
  have "js_sort count_desc (x # xs) = insert_by count_desc x (js_sort count_desc xs)"
    by (simp add: js_sort_def)
  also have "\<dots> = insert_by count_desc x (sort_key ?f xs)" by (simp only: ih)
  also have "\<dots> = insort_key ?f x (sort_key ?f xs)" using x rest by (rule insert_by_numeric)
  also have "\<dots> = sort_key ?f (x # xs)" by simp
  finally show ?case .
qed

lemma fold_obj_set_subset:
  "set (fold (\<lambda>(w, c) acc. obj_set acc w c) es acc) \<subseteq> set acc \<union> set es"
proof (induction es arbitrary: acc)
  case Nil
  then show ?case by simp
next
  case (Cons e es)
  obtain k c where e: "e = (k, c)" by (cases e)
  have "set (obj_set acc k c) \<subseteq> insert (k, c) (set acc)"
    using obj_put_subset [of acc k c] by (auto simp: obj_set_def)
  with Cons.IH [of "obj_set acc k c"] show ?case unfolding e by auto
qed

lemma filter_by_frequency_numbers:
  assumes "e \<in> set (filter_by_frequency merged m)"
  shows "\<exists>n. snd e = Num n"
proof -
  from assms have "e \<in> set (filter (\<lambda>(w, c). js_ge c m) (obj_entries merged))"
    using fold_obj_set_subset
            [of "filter (\<lambda>(w, c). js_ge c m) (obj_entries merged)" "[]"]
    by (auto simp: filter_by_frequency_def)
  then have "js_ge (snd e) m" by auto
  then show ?thesis by (cases "snd e") (simp_all add: js_ge_def)
qed

lemma getTopKeywords_filtered:
  "getTopKeywords (filter_by_frequency merged m) limit
     = map (\<lambda>(k, c). \<lparr>keyword = k, count = c\<rparr>)
         (take limit (sort_key (\<lambda>e. - the (to_number (snd e)))
                        (obj_entries (filter_by_frequency merged m))))"
proof -
  have "\<forall>e\<in>set (obj_entries (filter_by_frequency merged m)). \<exists>n. snd e = Num n"
    by (simp add: set_obj_entries filter_by_frequency_numbers)
  then have "js_sort count_desc (obj_entries (filter_by_frequency merged m))
      = sort_key (\<lambda>e. - the (to_number (snd e))) (obj_entries (filter_by_frequency merged m))"
    by (rule js_sort_numeric)
  then show ?thesis by (simp only: getTopKeywords_def)
qed

section \<open>The clock\<close>















end
